theory Spec2Isabelle
  imports Main "HOL-Library.Char_ord" "HOL-Library.List_Lexorder"
begin

section \<open>Values of the configuration document\<close>

text \<open>
  The configuration held by the store is a tree of JSON values. A mapping is kept as
  the list of its own properties in enumeration order (the order of
  \<^verbatim>\<open>Object.entries\<close> and of \<^verbatim>\<open>JSON.stringify\<close>), so that two mappings with the
  same properties in a different order are different values, as they are for the
  serialiser. Keys of one mapping are distinct; a lookup takes the first entry.
  Numbers are integers: the functions below never compute with a number, they only
  print and compare it.

  \<^verbatim>\<open>AppConfig\<close> is an interface, so the document itself is always an object: it is
  held as the property list of that object. A value read from a property may be
  \<^verbatim>\<open>undefined\<close>; such a value has type \<open>json option\<close>, \<open>None\<close> for undefined.
\<close>

datatype json =
    JNull
  | JBool bool
  | JNum int
  | JStr string
  | JArr "json list"
  | JObj "(string \<times> json) list"

type_synonym AppConfig = "(string \<times> json) list"

text \<open>JavaScript's truthiness, as in \<^verbatim>\<open>if (x)\<close>, \<^verbatim>\<open>!x\<close> and \<^verbatim>\<open>x && y\<close>.\<close>

fun truthy :: "json option \<Rightarrow> bool" where
  "truthy None = False"
| "truthy (Some JNull) = False"
| "truthy (Some (JBool b)) = b"
| "truthy (Some (JNum n)) = (n \<noteq> 0)"
| "truthy (Some (JStr s)) = (s \<noteq> [])"
| "truthy (Some (JArr xs)) = True"
| "truthy (Some (JObj kvs)) = True"

text \<open>\<^verbatim>\<open>typeof x === 'object'\<close>: mappings, sequences and null.\<close>

fun typeof_object :: "json option \<Rightarrow> bool" where
  "typeof_object (Some JNull) = True"
| "typeof_object (Some (JArr xs)) = True"
| "typeof_object (Some (JObj kvs)) = True"
| "typeof_object _ = False"

text \<open>
  Reading a property with a fixed name. \<open>get_opt\<close> is the optional read \<^verbatim>\<open>v?.name\<close>:
  undefined when \<open>v\<close> is undefined or null. None of the names the program reads
  (\<^verbatim>\<open>resources\<close>, \<^verbatim>\<open>model\<close>, \<^verbatim>\<open>schema\<close>, ...) is a property of a string, a number, a
  boolean, an array or of \<^verbatim>\<open>Object.prototype\<close>, so on every JSON value the read is
  the own property of a mapping or undefined. \<open>get\<close> is the plain read
  \<^verbatim>\<open>v.name\<close>, which throws a TypeError on undefined and null.
\<close>

datatype failure = TypeError

fun get_opt :: "json option \<Rightarrow> string \<Rightarrow> json option" where
  "get_opt (Some (JObj kvs)) k = map_of kvs k"
| "get_opt _ k = None"

definition get :: "json option \<Rightarrow> string \<Rightarrow> failure + json option" where
  "get v k = (if v = None \<or> v = Some JNull then Inl TypeError else Inr (get_opt v k))"

text \<open>Decimal digits of a natural number (an array index in a property name or a path).\<close>

fun digits :: "nat \<Rightarrow> string" where
  "digits n =
     (if n < 10 then [char_of (n + 48)]
      else digits (n div 10) @ [char_of (n mod 10 + 48)])"

declare digits.simps [simp del]

text \<open>
  \<^verbatim>\<open>Object.entries(v)\<close> for a value the caller has found truthy: the own enumerable
  properties. An array has its elements under their indices, a string its characters,
  a number or a boolean has none.
\<close>

fun indexed :: "nat \<Rightarrow> 'a list \<Rightarrow> (string \<times> 'a) list" where
  "indexed i [] = []"
| "indexed i (x # xs) = (digits i, x) # indexed (Suc i) xs"

fun entries :: "json \<Rightarrow> (string \<times> json) list" where
  "entries (JObj kvs) = kvs"
| "entries (JArr xs) = indexed 0 xs"
| "entries (JStr s) = indexed 0 (map (\<lambda>c. JStr [c]) s)"
| "entries _ = []"

section \<open>JSON.stringify\<close>

text \<open>
  The text \<^verbatim>\<open>JSON.stringify\<close> produces for a JSON value, without indentation. A
  string is quoted with the escapes of the standard: the short forms, and
  \<^verbatim>\<open>\u00XX\<close> for the other control characters.
\<close>

definition hex_digit :: "nat \<Rightarrow> char" where
  "hex_digit n = (if n < 10 then char_of (n + 48) else char_of (n + 87))"

definition escape_char :: "char \<Rightarrow> string" where
  "escape_char c =
     (if c = CHR 0x22 then [CHR 0x5C, CHR 0x22]
      else if c = CHR 0x5C then [CHR 0x5C, CHR 0x5C]
      else if c = CHR 0x08 then [CHR 0x5C, CHR ''b'']
      else if c = CHR 0x0C then [CHR 0x5C, CHR ''f'']
      else if c = CHR 0x0A then [CHR 0x5C, CHR ''n'']
      else if c = CHR 0x0D then [CHR 0x5C, CHR ''r'']
      else if c = CHR 0x09 then [CHR 0x5C, CHR ''t'']
      else if (of_char c :: nat) < 32
        then [CHR 0x5C, CHR ''u'', CHR ''0'', CHR ''0'',
              hex_digit (of_char c div 16), hex_digit (of_char c mod 16)]
      else [c])"

definition quote :: "string \<Rightarrow> string" where
  "quote s = [CHR 0x22] @ concat (map escape_char s) @ [CHR 0x22]"

fun commas :: "string list \<Rightarrow> string" where
  "commas [] = []"
| "commas [x] = x"
| "commas (x # y # ys) = x @ '','' @ commas (y # ys)"

fun to_text :: "json \<Rightarrow> string" where
  "to_text JNull = ''null''"
| "to_text (JBool b) = (if b then ''true'' else ''false'')"
| "to_text (JNum n) = (if n < 0 then ''-'' @ digits (nat (- n)) else digits (nat n))"
| "to_text (JStr s) = quote s"
| "to_text (JArr xs) = ''['' @ commas (map to_text xs) @ '']''"
| "to_text (JObj kvs) =
     ''{'' @ commas (map (\<lambda>(k, v). quote k @ '':'' @ to_text v) kvs) @ ''}''"

section \<open>Tokens of a serialisation\<close>

text \<open>
  Notions for reading a text of \<open>to_text\<close> back: the decimal digits and the number
  they denote, the characters that can follow a value inside a text, and the kind of
  a value, which the first character of its text tells.
\<close>

definition is_digit :: "char \<Rightarrow> bool" where
  "is_digit c = (48 \<le> (of_char c :: nat) \<and> (of_char c :: nat) \<le> 57)"

definition digit_value :: "string \<Rightarrow> nat" where
  "digit_value s = foldl (\<lambda>a c. 10 * a + ((of_char c :: nat) - 48)) 0 s"

definition delimited :: "string \<Rightarrow> bool" where
  "delimited r = (r = [] \<or> hd r = CHR '','' \<or> hd r = CHR '']'' \<or> hd r = CHR ''}'')"

definition same_kind :: "json \<Rightarrow> json \<Rightarrow> bool" where
  "same_kind v w =
     (case v of
        JNull \<Rightarrow> w = JNull
      | JBool b \<Rightarrow> w = JBool b
      | JNum n \<Rightarrow> (\<exists>m. w = JNum m \<and> (n < 0 \<longleftrightarrow> m < 0))
      | JStr s \<Rightarrow> (\<exists>s'. w = JStr s')
      | JArr xs \<Rightarrow> (\<exists>ys. w = JArr ys)
      | JObj kvs \<Rightarrow> (\<exists>lws. w = JObj lws))"

section \<open>The reference codec\<close>

text \<open>
  \<^verbatim>\<open>valueContainsRef(value, refKey)\<close>: a string that is the wrapped marker, the alias
  marker or the key itself.
\<close>

definition valueContainsRef :: "json option \<Rightarrow> string \<Rightarrow> bool" where
  "valueContainsRef v refKey =
     (case v of
        Some (JStr s) \<Rightarrow>
          (if s = ''__REF__'' @ refKey \<or> s = ''*'' @ refKey then True
           else if s = refKey then True
           else False)
      | _ \<Rightarrow> False)"

text \<open>
  The read \<^verbatim>\<open>section?.[refKey]\<close> with a computed key, in \<^verbatim>\<open>objectMatchesKey\<close>. Here
  the key is any string, so the read can reach what a mapping inherits from
  \<^verbatim>\<open>Object.prototype\<close>: the accessor \<^verbatim>\<open>__proto__\<close>, which yields the prototype object
  itself, and the methods, which are functions. A prototype object is truthy and
  \<^verbatim>\<open>JSON.stringify\<close> prints it as the empty value of its kind (\<^verbatim>\<open>{}\<close> for
  \<^verbatim>\<open>Object.prototype\<close>, \<^verbatim>\<open>[]\<close> for \<^verbatim>\<open>Array.prototype\<close>); for a function
  \<^verbatim>\<open>JSON.stringify\<close> returns undefined.

  For an array the own properties are the indices and \<^verbatim>\<open>length\<close>. What an array
  inherits besides \<^verbatim>\<open>__proto__\<close>, and every property of a string, a number or a
  boolean, is a function, a number, a one-character string or a prototype that is
  printed as a string, a number or a boolean: none of these is printed like a mapping
  or a sequence, so \<^verbatim>\<open>objectMatchesKey\<close> answers false for them exactly as it does for
  undefined, and they are \<open>Undefined\<close> here.
\<close>

datatype looked = Undefined | Val json | Proto json | Method

definition object_prototype_methods :: "string list" where
  "object_prototype_methods =
     [''constructor'', ''__defineGetter__'', ''__defineSetter__'', ''hasOwnProperty'',
      ''__lookupGetter__'', ''__lookupSetter__'', ''isPrototypeOf'',
      ''propertyIsEnumerable'', ''toString'', ''valueOf'', ''toLocaleString'']"

fun computed_read :: "json option \<Rightarrow> string \<Rightarrow> looked" where
  "computed_read (Some (JObj kvs)) k =
     (case map_of kvs k of
        Some v \<Rightarrow> Val v
      | None \<Rightarrow>
          if k = ''__proto__'' then Proto (JObj [])
          else if k \<in> set object_prototype_methods then Method
          else Undefined)"
| "computed_read (Some (JArr xs)) k =
     (case map_of (indexed 0 xs) k of
        Some v \<Rightarrow> Val v
      | None \<Rightarrow>
          if k = ''length'' then Val (JNum (int (length xs)))
          else if k = ''__proto__'' then Proto (JArr [])
          else Undefined)"
| "computed_read _ k = Undefined"

fun truthy_looked :: "looked \<Rightarrow> bool" where
  "truthy_looked Undefined = False"
| "truthy_looked (Val v) = truthy (Some v)"
| "truthy_looked (Proto p) = True"
| "truthy_looked Method = True"

fun JSON_stringify :: "looked \<Rightarrow> string option" where
  "JSON_stringify Undefined = None"
| "JSON_stringify (Val v) = Some (to_text v)"
| "JSON_stringify (Proto p) = Some (to_text p)"
| "JSON_stringify Method = None"

text \<open>
  The \<^verbatim>\<open>switch\<close> of \<^verbatim>\<open>objectMatchesKey\<close>: the configured resource for a resource
  type and a key; \<^verbatim>\<open>null\<close>, the initial value, when no case matches.
\<close>

definition configuredResource :: "AppConfig \<Rightarrow> string \<Rightarrow> string \<Rightarrow> looked" where
  "configuredResource config resourceType refKey =
     (let resources = map_of config ''resources'' in
      if resourceType = ''llm'' then computed_read (get_opt resources ''llms'') refKey
      else if resourceType = ''schema'' then computed_read (map_of config ''schemas'') refKey
      else if resourceType = ''genie_room''
        then computed_read (get_opt resources ''genie_rooms'') refKey
      else if resourceType = ''retriever''
        then computed_read (map_of config ''retrievers'') refKey
      else if resourceType = ''vector_store''
        then computed_read (get_opt resources ''vector_stores'') refKey
      else if resourceType = ''function''
        then computed_read (get_opt resources ''functions'') refKey
      else if resourceType = ''warehouse''
        then computed_read (get_opt resources ''warehouses'') refKey
      else if resourceType = ''connection''
        then computed_read (get_opt resources ''connections'') refKey
      else if resourceType = ''database''
        then computed_read (get_opt resources ''databases'') refKey
      else if resourceType = ''tool'' then computed_read (map_of config ''tools'') refKey
      else if resourceType = ''guardrail''
        then computed_read (map_of config ''guardrails'') refKey
      else if resourceType = ''agent'' then computed_read (map_of config ''agents'') refKey
      else if resourceType = ''prompt'' then computed_read (map_of config ''prompts'') refKey
      else if resourceType = ''variable''
        then computed_read (map_of config ''variables'') refKey
      else if resourceType = ''service_principal''
        then computed_read (map_of config ''service_principals'') refKey
      else Val JNull)"

text \<open>
  \<^verbatim>\<open>objectMatchesKey(obj, refKey, config, resourceType)\<close>. The two serialisations are
  compared as texts. \<^verbatim>\<open>JSON.stringify\<close> throws only on a cyclic value or a BigInt,
  which a JSON tree is not, so the \<^verbatim>\<open>catch\<close> branch is never taken.
\<close>

definition objectMatchesKey :: "json option \<Rightarrow> string \<Rightarrow> AppConfig \<Rightarrow> string \<Rightarrow> bool" where
  "objectMatchesKey obj refKey config resourceType =
     (case obj of
        None \<Rightarrow> False
      | Some v \<Rightarrow>
          if \<not> truthy obj then False
          else if \<not> typeof_object obj then False
          else
            let c = configuredResource config resourceType refKey in
            if \<not> truthy_looked c then False
            else JSON_stringify (Val v) = JSON_stringify c)"

section \<open>The graph walker\<close>


section \<open>The dependency finder\<close>

text \<open>
  A dependency record: the type of the dependent component, its name and the field
  that holds the reference. A finder has no \<^verbatim>\<open>try\<close>: reading a property of a
  component that is \<^verbatim>\<open>null\<close> throws, and the finder throws with it.
\<close>

datatype DependencyInfo = DependencyInfo string string string

definition andThen :: "failure + 'a \<Rightarrow> ('a \<Rightarrow> failure + 'b) \<Rightarrow> failure + 'b" where
  "andThen m f = (case m of Inl e \<Rightarrow> Inl e | Inr x \<Rightarrow> f x)"

text \<open>
  \<^verbatim>\<open>if (section) for (const [key, x] of Object.entries(section)) body\<close>: the records
  the iterations push, in order, unless one of them throws.
\<close>

fun for_each ::
  "(string \<Rightarrow> json \<Rightarrow> failure + DependencyInfo list) \<Rightarrow> (string \<times> json) list
     \<Rightarrow> failure + DependencyInfo list" where
  "for_each body [] = Inr []"
| "for_each body ((k, x) # es) =
     andThen (body k x) (\<lambda>ds. andThen (for_each body es) (\<lambda>ds'. Inr (ds @ ds')))"

definition for_entries ::
  "json option \<Rightarrow> (string \<Rightarrow> json \<Rightarrow> failure + DependencyInfo list)
     \<Rightarrow> failure + DependencyInfo list" where
  "for_entries section body =
     (case section of
        None \<Rightarrow> Inr []
      | Some v \<Rightarrow> if truthy (Some v) then for_each body (entries v) else Inr [])"

text \<open>
  \<^verbatim>\<open>if (valueContainsRef(x.f, key) || objectMatchesKey(x.f, key, config, rt))
  deps.push({type, name, field: f})\<close>, the test most finders make on a field.
\<close>

definition refers :: "json option \<Rightarrow> string \<Rightarrow> AppConfig \<Rightarrow> string \<Rightarrow> bool" where
  "refers v refKey config resourceType =
     (valueContainsRef v refKey \<or> objectMatchesKey v refKey config resourceType)"

definition field_dep ::
  "AppConfig \<Rightarrow> string \<Rightarrow> string \<Rightarrow> string \<Rightarrow> string \<Rightarrow> string \<Rightarrow> json
     \<Rightarrow> failure + DependencyInfo list" where
  "field_dep config resourceType refKey ty f key x =
     andThen (get (Some x) f)
       (\<lambda>v. Inr (if refers v refKey config resourceType then [DependencyInfo ty key f] else []))"

text \<open>
  \<^verbatim>\<open>typeof tool.function === 'object' && tool.function !== null\<close>, then the paths
  of the references inside the function.
\<close>

definition is_object :: "json option \<Rightarrow> bool" where
  "is_object v = (typeof_object v \<and> v \<noteq> Some JNull)"





definition findLlmDependencies :: "AppConfig \<Rightarrow> string \<Rightarrow> failure + DependencyInfo list" where
  "findLlmDependencies config llmKey =
     (let memory = map_of config ''memory'';
          supervisor = get_opt (get_opt (map_of config ''app'') ''orchestration'') ''supervisor''
      in
      andThen (for_entries (map_of config ''agents'')
                 (field_dep config ''llm'' llmKey ''agent'' ''model''))
      (\<lambda>agents. andThen (for_entries (map_of config ''guardrails'')
                 (field_dep config ''llm'' llmKey ''guardrail'' ''model''))
      (\<lambda>guardrails. andThen (for_entries (get_opt (map_of config ''resources'') ''vector_stores'')
                 (field_dep config ''llm'' llmKey ''vector_store'' ''embedding_model''))
      (\<lambda>stores. Inr
         (agents @ guardrails
          @ (if truthy (get_opt memory ''store'')
                \<and> refers (get_opt (get_opt memory ''store'') ''embedding_model'') llmKey config ''llm''
             then [DependencyInfo ''memory'' ''store'' ''embedding_model''] else [])
          @ (if truthy supervisor \<and> refers (get_opt supervisor ''model'') llmKey config ''llm''
             then [DependencyInfo ''orchestration'' ''supervisor'' ''model''] else [])
          @ stores)))))"

















section \<open>The deletion validator\<close>

text \<open>
  The serialiser \<^verbatim>\<open>generateYAML\<close> and the parser \<^verbatim>\<open>yaml.load\<close> are imported from
  modules that are not part of these sources. Both are parameters here: each either
  returns or throws, and what is thrown is an \<^verbatim>\<open>Error\<close> with its message or some other
  value. The serialiser is given the trial document.
\<close>

datatype thrown = ErrorObj string | NonError

text \<open>
  The trial document that \<^verbatim>\<open>validateConfig\<close> is given: the copy of the document
  after the deletion. It is a JSON tree, except that \<^verbatim>\<open>delete\<close> may have left one empty
  slot in a sequence; \<open>empty_slot\<close> is the path of that sequence and the index of the
  slot, and \<open>document\<close> has \<open>JNull\<close> there, which is how \<^verbatim>\<open>JSON.stringify\<close> prints
  an empty slot.
\<close>

record trial =
  document :: AppConfig
  empty_slot :: "(string list \<times> nat) option"

type_synonym serializer = "trial \<Rightarrow> thrown + string"
type_synonym parser = "string \<Rightarrow> thrown + json"

text \<open>
  The regular expression \<^verbatim>\<open>/undefined alias "([^"]+)"/i\<close> of \<^verbatim>\<open>validateConfig\<close>, and
  the capture group of its leftmost match. Ignoring case only concerns the ASCII
  letters of the pattern. At one position the only possible match takes the longest
  run of characters other than the double quote, which must not be empty and must be
  followed by a double quote.
\<close>

definition lower_char :: "char \<Rightarrow> char" where
  "lower_char c =
     (if 65 \<le> (of_char c :: nat) \<and> (of_char c :: nat) \<le> 90
      then char_of ((of_char c :: nat) + 32) else c)"

definition toLowerCase :: "string \<Rightarrow> string" where
  "toLowerCase s = map lower_char s"

definition alias_prefix :: string where
  "alias_prefix = ''undefined alias '' @ [CHR 0x22]"

definition match_here :: "string \<Rightarrow> string option" where
  "match_here s =
     (if toLowerCase (take (length alias_prefix) s) = alias_prefix then
        (let rest = drop (length alias_prefix) s;
             name = takeWhile (\<lambda>c. c \<noteq> CHR 0x22) rest
         in if name \<noteq> [] \<and> length name < length rest then Some name else None)
      else None)"

fun aliasMatch :: "string \<Rightarrow> string option" where
  "aliasMatch [] = None"
| "aliasMatch (c # cs) =
     (case match_here (c # cs) of Some a \<Rightarrow> Some a | None \<Rightarrow> aliasMatch cs)"

text \<open>
  \<^verbatim>\<open>validateConfig(config)\<close>: null (\<open>None\<close>) when the document is serialised and
  parsed back, a diagnostic otherwise.
\<close>

definition diagnostic :: "thrown \<Rightarrow> string" where
  "diagnostic e =
     (case e of
        ErrorObj message \<Rightarrow>
          (case aliasMatch message of
             Some a \<Rightarrow>
               ''This component is referenced by '' @ [CHR 0x22] @ a @ [CHR 0x22]
                 @ ''. Remove that reference first.''
           | None \<Rightarrow> ''Validation failed: '' @ message)
      | NonError \<Rightarrow> ''Unknown validation error'')"

definition validateConfig :: "serializer \<Rightarrow> parser \<Rightarrow> trial \<Rightarrow> string option" where
  "validateConfig generateYAML yaml_load config =
     (case generateYAML config of
        Inl e \<Rightarrow> Some (diagnostic e)
      | Inr yamlString \<Rightarrow>
          (case yaml_load yamlString of
             Inl e \<Rightarrow> Some (diagnostic e)
           | Inr doc \<Rightarrow> None))"

text \<open>
  \<^verbatim>\<open>if (section) delete section[componentKey]\<close>, in the strict mode of a module. From a
  mapping the property is removed and the others keep their order. A sequence has its
  elements under their indices, and a \<^verbatim>\<open>length\<close>: deleting an element leaves an empty
  slot and the length as it is; \<^verbatim>\<open>length\<close> cannot be deleted. A string has its
  characters under their indices, and a \<^verbatim>\<open>length\<close>; none of them can be deleted.
  \<^verbatim>\<open>delete\<close> throws a TypeError for a property that cannot be deleted, and does
  nothing for a property the value does not have. (The interface types every section
  as a record of components: in a document of that type a truthy section is a
  mapping.)
\<close>

definition own_index :: "nat \<Rightarrow> string \<Rightarrow> nat option" where
  "own_index n k = find (\<lambda>i. digits i = k) [0..<n]"

fun non_configurable :: "json \<Rightarrow> string \<Rightarrow> bool" where
  "non_configurable (JArr xs) k = (k = ''length'')"
| "non_configurable (JStr s) k =
     (case own_index (length s) k of Some i \<Rightarrow> True | None \<Rightarrow> k = ''length'')"
| "non_configurable v k = False"

text \<open>
  \<open>delete_key v k\<close>: the value after \<^verbatim>\<open>delete v[k]\<close>, and the index of the slot that
  was emptied, if one was. In the value the empty slot holds \<open>JNull\<close>, which is how
  \<^verbatim>\<open>JSON.stringify\<close> prints it.
\<close>

fun delete_key :: "json \<Rightarrow> string \<Rightarrow> failure + json \<times> nat option" where
  "delete_key (JObj kvs) k = Inr (JObj (filter (\<lambda>p. fst p \<noteq> k) kvs), None)"
| "delete_key (JArr xs) k =
     (if non_configurable (JArr xs) k then Inl TypeError
      else case own_index (length xs) k of
             Some i \<Rightarrow> Inr (JArr (xs[i := JNull]), Some i)
           | None \<Rightarrow> Inr (JArr xs, None))"
| "delete_key v k = (if non_configurable v k then Inl TypeError else Inr (v, None))"

definition delete_in ::
  "(string \<times> json) list \<Rightarrow> string \<Rightarrow> string \<Rightarrow> failure + (string \<times> json) list \<times> nat option" where
  "delete_in obj section k =
     (case map_of obj section of
        None \<Rightarrow> Inr (obj, None)
      | Some v \<Rightarrow>
          if truthy (Some v) then
            (case delete_key v k of
               Inl e \<Rightarrow> Inl e
             | Inr (v', slot) \<Rightarrow>
                 Inr (map (\<lambda>(name, w). if name = section then (name, v') else (name, w)) obj,
                      slot))
          else Inr (obj, None))"

definition at_path ::
  "string list \<Rightarrow> failure + AppConfig \<times> nat option \<Rightarrow> failure + trial" where
  "at_path path r =
     (case r of
        Inl e \<Rightarrow> Inl e
      | Inr (c, slot) \<Rightarrow> Inr \<lparr>document = c, empty_slot = map_option (Pair path) slot\<rparr>)"

text \<open>\<^verbatim>\<open>if (testConfig.tools) delete testConfig.tools[componentKey]\<close>\<close>

definition delete_section :: "AppConfig \<Rightarrow> string \<Rightarrow> string \<Rightarrow> failure + trial" where
  "delete_section config section k = at_path [section] (delete_in config section k)"

text \<open>
  \<^verbatim>\<open>if (testConfig.resources?.llms) delete testConfig.resources.llms[componentKey]\<close>,
  and the same for the other kinds of resource.
\<close>

definition delete_resource :: "AppConfig \<Rightarrow> string \<Rightarrow> string \<Rightarrow> failure + trial" where
  "delete_resource config kind k =
     at_path [''resources'', kind]
       (case map_of config ''resources'' of
          Some (JObj kvs) \<Rightarrow>
            (case delete_in kvs kind k of
               Inl e \<Rightarrow> Inl e
             | Inr (kvs', slot) \<Rightarrow>
                 Inr (map (\<lambda>(name, v). if name = ''resources'' then (name, JObj kvs')
                                        else (name, v)) config,
                      slot))
        | _ \<Rightarrow> Inr (config, None))"

text \<open>
  The \<^verbatim>\<open>switch\<close> of \<^verbatim>\<open>validateDeletion\<close> on the lower-cased component type: the
  trial document or the TypeError of \<^verbatim>\<open>delete\<close>, and \<open>None\<close> for the \<^verbatim>\<open>default\<close>
  case.
\<close>

definition applyDeletion :: "AppConfig \<Rightarrow> string \<Rightarrow> string \<Rightarrow> (failure + trial) option" where
  "applyDeletion testConfig t k =
     (if t = ''tool'' then Some (delete_section testConfig ''tools'' k)
      else if t = ''guardrail'' then Some (delete_section testConfig ''guardrails'' k)
      else if t = ''schema'' then Some (delete_section testConfig ''schemas'' k)
      else if t = ''variable'' then Some (delete_section testConfig ''variables'' k)
      else if t = ''agent'' then Some (delete_section testConfig ''agents'' k)
      else if t = ''service principal''
        then Some (delete_section testConfig ''service_principals'' k)
      else if t = ''prompt'' then Some (delete_section testConfig ''prompts'' k)
      else if t = ''retriever'' then Some (delete_section testConfig ''retrievers'' k)
      else if t = ''llm'' then Some (delete_resource testConfig ''llms'' k)
      else if t = ''genie room'' then Some (delete_resource testConfig ''genie_rooms'' k)
      else if t = ''warehouse'' then Some (delete_resource testConfig ''warehouses'' k)
      else if t = ''function'' then Some (delete_resource testConfig ''functions'' k)
      else if t = ''connection'' then Some (delete_resource testConfig ''connections'' k)
      else if t = ''database'' then Some (delete_resource testConfig ''databases'' k)
      else if t = ''vector store'' then Some (delete_resource testConfig ''vector_stores'' k)
      else if t = ''middleware'' then Some (delete_section testConfig ''middleware'' k)
      else None)"

text \<open>
  \<^verbatim>\<open>validateDeletion(config, componentType, componentKey)\<close>: the diagnostic or null,
  or the TypeError of \<^verbatim>\<open>delete\<close>, which is thrown outside any \<^verbatim>\<open>try\<close>. The copy
  \<^verbatim>\<open>JSON.parse(JSON.stringify(config))\<close> of a JSON tree is the same tree; as a value it
  is \<open>config\<close> itself. (What the copy allocates is the subject of the section on the
  heap.)
\<close>

definition validateDeletion ::
  "serializer \<Rightarrow> parser \<Rightarrow> AppConfig \<Rightarrow> string \<Rightarrow> string \<Rightarrow> failure + string option" where
  "validateDeletion generateYAML yaml_load config componentType componentKey =
     (let testConfig = config in
      case applyDeletion testConfig (toLowerCase componentType) componentKey of
        None \<Rightarrow> Inr None
      | Some (Inl e) \<Rightarrow> Inl e
      | Some (Inr trial) \<Rightarrow> Inr (validateConfig generateYAML yaml_load trial))"

text \<open>The component types the validator has a case for.\<close>

definition modelled_types :: "string list" where
  "modelled_types =
     [''tool'', ''guardrail'', ''schema'', ''variable'', ''agent'', ''service principal'',
      ''prompt'', ''retriever'', ''llm'', ''genie room'', ''warehouse'', ''function'',
      ''connection'', ''database'', ''vector store'', ''middleware'']"

section \<open>The document in the heap\<close>

text \<open>
  For the effect of \<^verbatim>\<open>validateDeletion\<close> on its argument the objects have an
  identity. The heap is the list of the objects allocated so far, an address is an
  index into it, and a new object is appended. An object is a sequence or a mapping
  of values; a value is a primitive or the address of an object. \<open>HEmpty\<close> stands in
  a sequence for an empty slot, which \<^verbatim>\<open>delete\<close> leaves; \<^verbatim>\<open>JSON.stringify\<close> prints
  it as \<^verbatim>\<open>null\<close>.
\<close>

datatype hval = HNull | HBool bool | HNum int | HStr string | HRef nat | HEmpty

datatype hobj = HArr "hval list" | HObj "(string \<times> hval) list"

type_synonym heap = "hobj list"

text \<open>
  \<^verbatim>\<open>JSON.stringify\<close> walks the objects reachable from a value and throws a TypeError
  when it meets a cycle. \<open>read n h v\<close> follows at most \<open>n\<close> nested references. A path
  through more objects than the heap holds visits one of them twice, so with
  \<open>n = length h\<close> the result is \<open>None\<close> exactly for a cyclic value (or an address
  outside the heap, which no program creates).
\<close>

fun read :: "nat \<Rightarrow> heap \<Rightarrow> hval \<Rightarrow> json option" where
  "read n h HNull = Some JNull"
| "read n h (HBool b) = Some (JBool b)"
| "read n h (HNum i) = Some (JNum i)"
| "read n h (HStr s) = Some (JStr s)"
| "read n h HEmpty = Some JNull"
| "read 0 h (HRef a) = None"
| "read (Suc n) h (HRef a) =
     (if a < length h then
        (case h ! a of
           HArr vs \<Rightarrow> map_option JArr (those (map (read n h) vs))
         | HObj fs \<Rightarrow>
             map_option JObj (those (map (\<lambda>(k, v). map_option (Pair k) (read n h v)) fs)))
      else None)"

text \<open>\<^verbatim>\<open>JSON.parse\<close> builds the value of a text out of new objects.\<close>

function (sequential) alloc :: "heap \<Rightarrow> json \<Rightarrow> heap \<times> hval"
  and alloc_items :: "heap \<Rightarrow> json list \<Rightarrow> heap \<times> hval list"
  and alloc_fields :: "heap \<Rightarrow> (string \<times> json) list \<Rightarrow> heap \<times> (string \<times> hval) list" where
  "alloc h JNull = (h, HNull)"
| "alloc h (JBool b) = (h, HBool b)"
| "alloc h (JNum i) = (h, HNum i)"
| "alloc h (JStr s) = (h, HStr s)"
| "alloc h (JArr xs) =
     (case alloc_items h xs of (h', vs) \<Rightarrow> (h' @ [HArr vs], HRef (length h')))"
| "alloc h (JObj kvs) =
     (case alloc_fields h kvs of (h', fs) \<Rightarrow> (h' @ [HObj fs], HRef (length h')))"
| "alloc_items h [] = (h, [])"
| "alloc_items h (x # xs) =
     (case alloc h x of (h1, v) \<Rightarrow>
        (case alloc_items h1 xs of (h2, vs) \<Rightarrow> (h2, v # vs)))"
| "alloc_fields h [] = (h, [])"
| "alloc_fields h ((k, x) # kvs) =
     (case alloc h x of (h1, v) \<Rightarrow>
        (case alloc_fields h1 kvs of (h2, fs) \<Rightarrow> (h2, (k, v) # fs)))"
  by pat_completeness auto
termination
  by (relation "measure (\<lambda>a. case a of
        Inl (h, v) \<Rightarrow> 2 * size v
      | Inr (Inl (h, xs)) \<Rightarrow> 2 * size_list size xs + 1
      | Inr (Inr (h, kvs)) \<Rightarrow> 2 * size_list (size_prod (\<lambda>x. 0) size) kvs + 1)") auto

text \<open>The optional read \<^verbatim>\<open>v?.name\<close> and truthiness, on heap values.\<close>

definition hget :: "heap \<Rightarrow> hval option \<Rightarrow> string \<Rightarrow> hval option" where
  "hget h v name =
     (case v of
        Some (HRef a) \<Rightarrow>
          (if a < length h then (case h ! a of HObj fs \<Rightarrow> map_of fs name | HArr vs \<Rightarrow> None)
           else None)
      | _ \<Rightarrow> None)"

fun htruthy :: "hval option \<Rightarrow> bool" where
  "htruthy None = False"
| "htruthy (Some HNull) = False"
| "htruthy (Some (HBool b)) = b"
| "htruthy (Some (HNum n)) = (n \<noteq> 0)"
| "htruthy (Some (HStr s)) = (s \<noteq> [])"
| "htruthy (Some (HRef a)) = True"
| "htruthy (Some HEmpty) = False"

text \<open>
  \<^verbatim>\<open>if (section) delete section[componentKey]\<close> writes the section object in place:
  the new heap and the index of the slot that was emptied, or the TypeError of
  \<^verbatim>\<open>delete\<close>. A string is not an object of the heap; nothing is written for it.
\<close>

definition heap_delete :: "heap \<Rightarrow> hval option \<Rightarrow> string \<Rightarrow> failure + heap \<times> nat option" where
  "heap_delete h section k =
     (if htruthy section then
        (case section of
           Some (HRef a) \<Rightarrow>
             (if a < length h then
                (case h ! a of
                   HObj fs \<Rightarrow> Inr (h[a := HObj (filter (\<lambda>p. fst p \<noteq> k) fs)], None)
                 | HArr vs \<Rightarrow>
                     if k = ''length'' then Inl TypeError
                     else case own_index (length vs) k of
                            Some i \<Rightarrow> Inr (h[a := HArr (vs[i := HEmpty])], Some i)
                          | None \<Rightarrow> Inr (h, None))
              else Inr (h, None))
         | Some (HStr s) \<Rightarrow>
             if non_configurable (JStr s) k then Inl TypeError else Inr (h, None)
         | _ \<Rightarrow> Inr (h, None))
      else Inr (h, None))"

text \<open>
  The cases of the \<^verbatim>\<open>switch\<close> as a table: the path of the section of a component
  type, below the document.
\<close>

definition section_path :: "string \<Rightarrow> string list option" where
  "section_path t =
     (if t = ''tool'' then Some [''tools'']
      else if t = ''guardrail'' then Some [''guardrails'']
      else if t = ''schema'' then Some [''schemas'']
      else if t = ''variable'' then Some [''variables'']
      else if t = ''agent'' then Some [''agents'']
      else if t = ''service principal'' then Some [''service_principals'']
      else if t = ''prompt'' then Some [''prompts'']
      else if t = ''retriever'' then Some [''retrievers'']
      else if t = ''llm'' then Some [''resources'', ''llms'']
      else if t = ''genie room'' then Some [''resources'', ''genie_rooms'']
      else if t = ''warehouse'' then Some [''resources'', ''warehouses'']
      else if t = ''function'' then Some [''resources'', ''functions'']
      else if t = ''connection'' then Some [''resources'', ''connections'']
      else if t = ''database'' then Some [''resources'', ''databases'']
      else if t = ''vector store'' then Some [''resources'', ''vector_stores'']
      else if t = ''middleware'' then Some [''middleware'']
      else None)"

fun hget_path :: "heap \<Rightarrow> hval option \<Rightarrow> string list \<Rightarrow> hval option" where
  "hget_path h v [] = v"
| "hget_path h v (name # names) = hget_path h (hget h v name) names"

text \<open>
  \<^verbatim>\<open>validateDeletion\<close> on the heap, for the document object at address \<open>root\<close>: the
  result, or the TypeError of \<^verbatim>\<open>JSON.stringify\<close> or of \<^verbatim>\<open>delete\<close>, and the heap it
  leaves. The copy is read from the heap and allocated anew; the deletion writes the
  section of the copy; the serialiser is given the copy as it then is.
\<close>

definition read_document :: "heap \<Rightarrow> nat \<Rightarrow> AppConfig option" where
  "read_document h root =
     (case read (length h) h (HRef root) of Some (JObj kvs) \<Rightarrow> Some kvs | _ \<Rightarrow> None)"

definition validateDeletion_heap ::
  "serializer \<Rightarrow> parser \<Rightarrow> heap \<Rightarrow> nat \<Rightarrow> string \<Rightarrow> string \<Rightarrow> (failure + string option) \<times> heap" where
  "validateDeletion_heap generateYAML yaml_load h root componentType componentKey =
     (case read_document h root of
        None \<Rightarrow> (Inl TypeError, h)
      | Some tree \<Rightarrow>
          (case alloc h (JObj tree) of
             (h1, testConfig) \<Rightarrow>
               (case section_path (toLowerCase componentType) of
                  None \<Rightarrow> (Inr None, h1)
                | Some path \<Rightarrow>
                    (case heap_delete h1 (hget_path h1 (Some testConfig) path) componentKey of
                       Inl e \<Rightarrow> (Inl e, h1)
                     | Inr (h2, slot) \<Rightarrow>
                         (case read (length h2) h2 testConfig of
                            Some (JObj tree') \<Rightarrow>
                              (Inr (validateConfig generateYAML yaml_load
                                      \<lparr>document = tree',
                                       empty_slot = map_option (Pair path) slot\<rparr>),
                               h2)
                          | _ \<Rightarrow> (Inl TypeError, h2))))))"

text \<open>
  When \<^verbatim>\<open>delete\<close> throws: the section of the component type is, in the document, a
  truthy value with a property under the key that cannot be deleted.
\<close>

fun get_path :: "json option \<Rightarrow> string list \<Rightarrow> json option" where
  "get_path v [] = v"
| "get_path v (name # names) = get_path (get_opt v name) names"

definition delete_throws :: "AppConfig \<Rightarrow> string \<Rightarrow> string \<Rightarrow> bool" where
  "delete_throws cfg t k =
     (case section_path t of
        None \<Rightarrow> False
      | Some path \<Rightarrow>
          (case get_path (Some (JObj cfg)) path of
             None \<Rightarrow> False
           | Some v \<Rightarrow> truthy (Some v) \<and> non_configurable v k))"

text \<open>The addresses an object holds.\<close>

definition refs_val :: "hval \<Rightarrow> nat list" where
  "refs_val v = (case v of HRef a \<Rightarrow> [a] | _ \<Rightarrow> [])"

definition refs_obj :: "hobj \<Rightarrow> nat list" where
  "refs_obj ob =
     (case ob of
        HArr vs \<Rightarrow> concat (map refs_val vs)
      | HObj fs \<Rightarrow> concat (map (\<lambda>p. refs_val (snd p)) fs))"

definition refs_heap :: "hobj list \<Rightarrow> nat list" where
  "refs_heap objs = concat (map refs_obj objs)"

text \<open>
  \<open>fresh lo hi as\<close>: every address of \<open>as\<close> lies between \<open>lo\<close> and \<open>hi\<close>.
  \<open>closed lo h\<close>: the objects of \<open>h\<close> from address \<open>lo\<close> on hold only addresses from
  \<open>lo\<close> on, so nothing below \<open>lo\<close> can be reached from them.
\<close>

definition fresh :: "nat \<Rightarrow> nat \<Rightarrow> nat list \<Rightarrow> bool" where
  "fresh lo hi as = list_all (\<lambda>a. lo \<le> a \<and> a < hi) as"

definition closed :: "nat \<Rightarrow> heap \<Rightarrow> bool" where
  "closed lo h = fresh lo (length h) (refs_heap (drop lo h))"

text \<open>\<open>shrunk ob ob'\<close>: the object \<open>ob'\<close> is \<open>ob\<close> without some of its properties, or with
  some of its elements emptied.\<close>

definition shrunk :: "hobj \<Rightarrow> hobj \<Rightarrow> bool" where
  "shrunk ob ob' =
     (case ob of
        HObj gs \<Rightarrow> (case ob' of HObj fs \<Rightarrow> set fs \<subseteq> set gs | HArr ws \<Rightarrow> False)
      | HArr vs \<Rightarrow>
          (case ob' of HArr ws \<Rightarrow> set ws \<subseteq> insert HEmpty (set vs) | HObj fs \<Rightarrow> False))"

section \<open>Structural equality, as the specification words it\<close>

text \<open>
  The specification asks for deep structural equality that ignores the order of the
  keys of a mapping and respects the order of a sequence. \<open>canon\<close> sorts the keys of
  every mapping; two values are \<open>deep_equal\<close> when their canonical forms coincide.
  These two definitions follow the specification, not the program.
\<close>

fun canon :: "json \<Rightarrow> json" where
  "canon (JArr xs) = JArr (map canon xs)"
| "canon (JObj kvs) = JObj (sort_key fst (map (\<lambda>(k, v). (k, canon v)) kvs))"
| "canon v = v"

definition deep_equal :: "json \<Rightarrow> json \<Rightarrow> bool" where
  "deep_equal a b = (canon a = canon b)"

section \<open>Components that are not null\<close>

text \<open>
  A finder throws when a component it reads a property of is \<^verbatim>\<open>null\<close>.
  \<open>no_null_entries\<close> says that no entry of a section is; \<open>field_deps\<close> is what the
  loop over such a section collects for one field.
\<close>

definition no_null_entries :: "json option \<Rightarrow> bool" where
  "no_null_entries s =
     (case s of None \<Rightarrow> True | Some v \<Rightarrow> JNull \<notin> snd ` set (entries v))"

definition field_deps ::
  "AppConfig \<Rightarrow> string \<Rightarrow> string \<Rightarrow> string \<Rightarrow> string \<Rightarrow> (string \<times> json) list
     \<Rightarrow> DependencyInfo list" where
  "field_deps cfg rt k ty f es =
     concat (map (\<lambda>(key, x). if refers (get_opt (Some x) f) k cfg rt
                               then [DependencyInfo ty key f] else []) es)"


section \<open>References a finder is built to find\<close>


definition configured :: "AppConfig \<Rightarrow> string \<Rightarrow> string \<Rightarrow> json option" where
  "configured cfg rt K = (case configuredResource cfg rt K of Val c \<Rightarrow> Some c | _ \<Rightarrow> None)"

definition expanded_copy :: "AppConfig \<Rightarrow> string \<Rightarrow> string \<Rightarrow> json option \<Rightarrow> bool" where
  "expanded_copy cfg rt K v =
     (case configured cfg rt K of
        Some c \<Rightarrow> is_object (Some c) \<and> v = Some c
      | None \<Rightarrow> False)"






section \<open>Example documents\<close>

text \<open>
  Two LLM resources with the same \<^verbatim>\<open>name\<close> and different temperatures, and an agent
  whose model is the expanded object of the first.
\<close>

definition gpt_a :: json where
  "gpt_a = JObj [(''name'', JStr ''shared-endpoint''), (''temperature'', JNum 0)]"

definition gpt_b :: json where
  "gpt_b = JObj [(''name'', JStr ''shared-endpoint''), (''temperature'', JNum 1)]"

definition two_llms :: json where
  "two_llms = JObj [(''llms'', JObj [(''gpt_a'', gpt_a), (''gpt_b'', gpt_b)])]"

definition scenario :: AppConfig where
  "scenario =
     [(''resources'', two_llms),
      (''agents'', JObj [(''helper'', JObj [(''model'', gpt_a)])])]"

text \<open>The same, with a second agent that refers to the second LLM by alias.\<close>

definition scenario_with_alias :: AppConfig where
  "scenario_with_alias =
     [(''resources'', two_llms),
      (''agents'', JObj [(''helper'', JObj [(''model'', gpt_a)]),
                         (''other'', JObj [(''model'', JStr ''*gpt_b'')])])]"

text \<open>
  A heap with a document of two sections at address 3, and stand-ins for the
  serialiser and the parser: a serialiser and a parser that accept every document,
  and a parser that fails with the message of an alias without anchor.
\<close>

definition example_heap :: heap where
  "example_heap =
     [HObj [(''search'', HNull), (''other'', HNum 1)],
      HObj [(''model'', HStr ''*gpt'')],
      HObj [(''a1'', HRef 1)],
      HObj [(''tools'', HRef 0), (''agents'', HRef 2)]]"

definition example_document :: AppConfig where
  "example_document =
     [(''tools'', JObj [(''search'', JNull), (''other'', JNum 1)]),
      (''agents'', JObj [(''a1'', JObj [(''model'', JStr ''*gpt'')])])]"

text \<open>A document that is a JSON tree and has a sequence and a string for sections.\<close>

definition sequence_heap :: heap where
  "sequence_heap = [HArr [], HObj [(''tools'', HRef 0), (''prompts'', HStr ''ab'')]]"

definition sequence_document :: AppConfig where
  "sequence_document = [(''tools'', JArr []), (''prompts'', JStr ''ab'')]"

definition serializer_ok :: serializer where
  "serializer_ok c = Inr ''tools: {}''"

definition parser_ok :: parser where
  "parser_ok s = Inr JNull"

definition parser_undefined_alias :: "string \<Rightarrow> parser" where
  "parser_undefined_alias name s =
     Inl (ErrorObj (''undefined alias '' @ [CHR 0x22] @ name @ [CHR 0x22]))"



section \<open>Deleting through the store\<close>

text \<open>
  \<^verbatim>\<open>safeDelete(componentType, componentKey, deleteAction)\<close> reads the document from
  the configuration store and reports to the notification store. The state is the
  document, the notifications (without the identifier and the time stamp, which come
  from the clock and a random number) and the number of times the callback has been
  called. The callback changes the document and may throw.
\<close>

datatype level = error | warning | success | info

record Notification =
  ntype :: level
  message :: string
  details :: "string option"

record stores =
  config :: AppConfig
  notifications :: "Notification list"
  invocations :: nat

type_synonym action = "AppConfig \<Rightarrow> AppConfig \<times> thrown option"

definition addNotification :: "level \<Rightarrow> string \<Rightarrow> string option \<Rightarrow> stores \<Rightarrow> stores" where
  "addNotification t m d st =
     st\<lparr>notifications := notifications st @ [\<lparr>ntype = t, message = m, details = d\<rparr>]\<rparr>"

text \<open>Calling \<^verbatim>\<open>deleteAction()\<close>: the call is counted, and the document is what the
  callback leaves, also when it throws.\<close>

definition call :: "action \<Rightarrow> stores \<Rightarrow> stores \<times> thrown option" where
  "call deleteAction st =
     (case deleteAction (config st) of
        (c, e) \<Rightarrow> (st\<lparr>config := c, invocations := Suc (invocations st)\<rparr>, e))"

text \<open>\<^verbatim>\<open>error instanceof Error ? error.message : 'Unknown error'\<close>\<close>

definition error_text :: "thrown \<Rightarrow> string" where
  "error_text e = (case e of ErrorObj m \<Rightarrow> m | NonError \<Rightarrow> ''Unknown error'')"

definition label :: "string \<Rightarrow> string \<Rightarrow> string" where
  "label componentType componentKey =
     componentType @ '' '' @ [CHR 0x22] @ componentKey @ [CHR 0x22]"

text \<open>
  \<^verbatim>\<open>if (error)\<close> tests a string or null: null and the empty string are falsy.
  \<^verbatim>\<open>validateDeletion\<close> is called outside the \<^verbatim>\<open>try\<close>: what it throws,
  \<^verbatim>\<open>safeDelete\<close> throws, and the stores are as they were. The result is the state of
  the stores when \<^verbatim>\<open>safeDelete\<close> returns; the timer that removes a notification that
  is not an error runs ten seconds later.
\<close>

definition safeDelete ::
  "serializer \<Rightarrow> parser \<Rightarrow> string \<Rightarrow> string \<Rightarrow> action \<Rightarrow> stores \<Rightarrow> failure + bool \<times> stores" where
  "safeDelete generateYAML yaml_load componentType componentKey deleteAction st =
     (case validateDeletion generateYAML yaml_load (config st) componentType componentKey of
        Inl e \<Rightarrow> Inl e
      | Inr err \<Rightarrow>
          Inr (if err \<noteq> None \<and> err \<noteq> Some [] then
                 (False,
                  addNotification error (''Cannot delete '' @ label componentType componentKey)
                    err st)
               else
                 (case call deleteAction st of
                    (st', None) \<Rightarrow>
                      (True,
                       addNotification success
                         (label componentType componentKey @ '' deleted'') None st')
                  | (st', Some e) \<Rightarrow>
                      (False,
                       addNotification error
                         (''Failed to delete '' @ label componentType componentKey)
                         (Some (error_text e)) st'))))"

text \<open>A state of the stores, and callbacks that succeed and throw.\<close>

definition example_stores :: stores where
  "example_stores = \<lparr>config = example_document, notifications = [], invocations = 0\<rparr>"

definition action_ok :: action where
  "action_ok c =
     (map (\<lambda>(name, v). if name = ''tools''
                          then (name, JObj (filter (\<lambda>p. fst p \<noteq> ''search'') (entries v)))
                          else (name, v)) c,
      None)"

definition action_throws :: action where
  "action_throws c = (c, Some (ErrorObj ''store is read-only''))"

section \<open>The serialisation determines the value\<close>

lemma of_char_digit: "n < 10 \<Longrightarrow> (of_char (char_of (n + 48)) :: nat) = n + 48"
  by simp

lemma digits_all: "list_all is_digit (digits n)"
proof (induction n rule: digits.induct)
  case (1 n)
  show ?case
  proof (cases "n < 10")
    case True
    then show ?thesis by (subst digits.simps) (simp add: is_digit_def)
  next
    case False
    with 1 have "list_all is_digit (digits (n div 10))" by simp
    moreover have "n mod 10 < 10" by simp
    then have "is_digit (char_of (n mod 10 + 48))"
      unfolding is_digit_def by (simp only: of_char_digit) simp
    ultimately show ?thesis using False by (subst digits.simps) simp
  qed
qed

lemma digits_nonempty: "digits n \<noteq> []"
  by (subst digits.simps) simp

lemma digit_value_digits: "digit_value (digits n) = n"
proof (induction n rule: digits.induct)
  case (1 n)
  show ?case
  proof (cases "n < 10")
    case True
    then show ?thesis by (subst digits.simps) (simp add: digit_value_def)
  next
    case False
    with 1 have "digit_value (digits (n div 10)) = n div 10" by simp
    moreover have "n mod 10 < 10" by simp
    then have "(of_char (char_of (n mod 10 + 48)) :: nat) = n mod 10 + 48"
      by (rule of_char_digit)
    ultimately show ?thesis using False
      by (subst digits.simps) (simp add: digit_value_def)
  qed
qed

lemma digits_inj: "digits n = digits m \<Longrightarrow> n = m"
  by (metis digit_value_digits)

lemma takeWhile_token:
  "list_all P xs \<Longrightarrow> r = [] \<or> \<not> P (hd r) \<Longrightarrow> takeWhile P (xs @ r) = xs"
  by (induction xs) (auto simp: takeWhile_eq_Nil_iff neq_Nil_conv)

lemma digits_token:
  assumes "digits n @ r = digits m @ r'"
    and "r = [] \<or> \<not> is_digit (hd r)" and "r' = [] \<or> \<not> is_digit (hd r')"
  shows "n = m \<and> r = r'"
proof -
  have "takeWhile is_digit (digits n @ r) = digits n"
    using digits_all assms(2) by (rule takeWhile_token)
  moreover have "takeWhile is_digit (digits m @ r') = digits m"
    using digits_all assms(3) by (rule takeWhile_token)
  ultimately have "digits n = digits m" using assms(1) by simp
  with assms(1) show ?thesis by (auto dest: digits_inj)
qed

lemma of_char_hex_digit:
  "n < 16 \<Longrightarrow> (of_char (hex_digit n) :: nat) = (if n < 10 then n + 48 else n + 87)"
  by (simp add: hex_digit_def)

lemma hex_digit_inj: "n < 16 \<Longrightarrow> m < 16 \<Longrightarrow> hex_digit n = hex_digit m \<Longrightarrow> n = m"
proof -
  assume n: "n < 16" and m: "m < 16" and e: "hex_digit n = hex_digit m"
  from e have "(of_char (hex_digit n) :: nat) = of_char (hex_digit m)" by simp
  with n m show ?thesis by (simp add: of_char_hex_digit split: if_splits)
qed

lemma control_inj:
  assumes "(of_char c :: nat) < 32" and "(of_char c' :: nat) < 32"
    and "hex_digit (of_char c div 16) = hex_digit (of_char c' div 16)"
    and "hex_digit (of_char c mod 16) = hex_digit (of_char c' mod 16)"
  shows "c = c'"
proof -
  have "(of_char c :: nat) div 16 = of_char c' div 16"
    using assms by (intro hex_digit_inj) simp_all
  moreover have "(of_char c :: nat) mod 16 = of_char c' mod 16"
    using assms by (intro hex_digit_inj) simp_all
  ultimately have "(of_char c :: nat) = of_char c'"
    by (metis div_mult_mod_eq)
  then show ?thesis by simp
qed

lemma escape_char_nonempty: "escape_char c \<noteq> []"
  by (simp add: escape_char_def)

lemma escape_char_hd: "hd (escape_char c) \<noteq> CHR 0x22"
  by (simp add: escape_char_def)

lemma escape_char_inj:
  "escape_char c @ r = escape_char c' @ r' \<Longrightarrow> c = c' \<and> r = r'"
  unfolding escape_char_def
  by (auto split: if_splits dest: control_inj)

lemma quote_body_inj:
  "concat (map escape_char s) @ CHR 0x22 # r = concat (map escape_char s') @ CHR 0x22 # r'
     \<Longrightarrow> s = s' \<and> r = r'"
proof (induction s arbitrary: s')
  case Nil
  show ?case
  proof (cases s')
    case Nil
    with Nil.prems show ?thesis by simp
  next
    case (Cons c t)
    with Nil.prems have "CHR 0x22 # r = escape_char c @ concat (map escape_char t) @ CHR 0x22 # r'"
      by simp
    then have "hd (escape_char c) = CHR 0x22"
      using escape_char_nonempty [of c] by (cases "escape_char c") auto
    with escape_char_hd show ?thesis by blast
  qed
next
  case (Cons c t)
  show ?case
  proof (cases s')
    case Nil
    with Cons.prems have "escape_char c @ concat (map escape_char t) @ CHR 0x22 # r = CHR 0x22 # r'"
      by simp
    then have "hd (escape_char c) = CHR 0x22"
      using escape_char_nonempty [of c] by (cases "escape_char c") auto
    with escape_char_hd show ?thesis by blast
  next
    case (Cons c' t')
    with Cons.prems have
      "escape_char c @ (concat (map escape_char t) @ CHR 0x22 # r)
         = escape_char c' @ (concat (map escape_char t') @ CHR 0x22 # r')" by simp
    then have "c = c'"
      and "concat (map escape_char t) @ CHR 0x22 # r = concat (map escape_char t') @ CHR 0x22 # r'"
      by (auto dest: escape_char_inj)
    with Cons.IH [of t'] \<open>s' = c' # t'\<close> show ?thesis by simp
  qed
qed

lemma quote_inj: "quote s @ r = quote s' @ r' \<Longrightarrow> s = s' \<and> r = r'"
  using quote_body_inj [of s r s' r'] by (simp add: quote_def)

lemma quote_Cons: "quote s = CHR 0x22 # concat (map escape_char s) @ [CHR 0x22]"
  by (simp add: quote_def)

lemma delimited_not_digit: "delimited r \<Longrightarrow> r = [] \<or> \<not> is_digit (hd r)"
  by (auto simp: delimited_def is_digit_def)

lemma digits_hd: "is_digit (hd (digits n))"
  using digits_all [of n] digits_nonempty [of n] by (cases "digits n") simp_all

lemma to_text_nonempty: "to_text v \<noteq> []"
  by (cases v) (simp_all add: digits_nonempty quote_def)

lemma to_text_hd:
  "hd (to_text v) =
     (case v of
        JNull \<Rightarrow> CHR ''n''
      | JBool b \<Rightarrow> if b then CHR ''t'' else CHR ''f''
      | JNum n \<Rightarrow> if n < 0 then CHR ''-'' else hd (digits (nat n))
      | JStr s \<Rightarrow> CHR 0x22
      | JArr xs \<Rightarrow> CHR ''[''
      | JObj kvs \<Rightarrow> CHR ''{'')"
  by (cases v) (simp_all add: quote_def)

lemma to_text_hd_not_delimiter:
  "hd (to_text v) \<noteq> CHR '','' \<and> hd (to_text v) \<noteq> CHR '']'' \<and> hd (to_text v) \<noteq> CHR ''}''"
proof (cases v)
  case (JNum n)
  have "is_digit (hd (digits (nat n)))" by (rule digits_hd)
  then show ?thesis by (auto simp: to_text_hd JNum is_digit_def)
qed (simp_all add: quote_def)


text \<open>
  A sequence of texts separated by commas and closed by a bracket determines its
  members, when each member's text determines the member and does not start with a
  delimiter.
\<close>

lemma commas_Cons: "commas (x # xs) = x @ (if xs = [] then [] else CHR '','' # commas xs)"
  by (cases xs) simp_all

lemma commas_inj:
  assumes el: "\<And>x y r r'. x \<in> set xs \<Longrightarrow> delimited r \<Longrightarrow> delimited r' \<Longrightarrow>
                 f x @ r = f y @ r' \<Longrightarrow> x = y \<and> r = r'"
    and hd: "\<And>y. f y \<noteq> [] \<and> hd (f y) \<noteq> CHR '','' \<and> hd (f y) \<noteq> c"
    and c: "c = CHR '']'' \<or> c = CHR ''}''"
    and eq: "commas (map f xs) @ c # r = commas (map f ys) @ c # r'"
  shows "xs = ys \<and> r = r'"
  using el eq
proof (induction xs arbitrary: ys)
  case Nil
  show ?case
  proof (cases ys)
    case Nil
    with Nil.prems show ?thesis by simp
  next
    case (Cons y ys')
    with Nil.prems(2) have "c # r = f y @ (if ys' = [] then [] else CHR '','' # commas (map f ys')) @ c # r'"
      by (simp add: commas_Cons)
    with hd [of y] have False by (cases "f y") auto
    then show ?thesis ..
  qed
next
  case (Cons x xs')
  show ?case
  proof (cases ys)
    case Nil
    with Cons.prems(2) have "f x @ (if xs' = [] then [] else CHR '','' # commas (map f xs')) @ c # r = c # r'"
      by (simp add: commas_Cons)
    with hd [of x] have False by (cases "f x") auto
    then show ?thesis ..
  next
    case (Cons y ys')
    let ?rx = "(if xs' = [] then [] else CHR '','' # commas (map f xs')) @ c # r"
    let ?ry = "(if ys' = [] then [] else CHR '','' # commas (map f ys')) @ c # r'"
    from Cons.prems(2) Cons have e: "f x @ ?rx = f y @ ?ry" by (simp add: commas_Cons)
    have "delimited ?rx" "delimited ?ry" using c by (auto simp: delimited_def)
    with Cons.prems(1) [of x ?rx ?ry y] e have xy: "x = y" and r: "?rx = ?ry" by simp_all
    show ?thesis
    proof (cases "xs' = []")
      case True
      with r c have "ys' = []" by (cases "ys' = []") auto
      with True r xy Cons show ?thesis by simp
    next
      case False
      with r c have ne: "ys' \<noteq> []" by (cases "ys' = []") auto
      with False r have e': "commas (map f xs') @ c # r = commas (map f ys') @ c # r'" by simp
      have "xs' = ys' \<and> r = r'"
      proof (rule Cons.IH)
        show "commas (map f xs') @ c # r = commas (map f ys') @ c # r'" by (rule e')
      next
        fix a b s s' assume "a \<in> set xs'" "delimited s" "delimited s'" "f a @ s = f b @ s'"
        then show "a = b \<and> s = s'" using Cons.prems(1) [of a s s' b] by simp
      qed
      with xy Cons show ?thesis by simp
    qed
  qed
qed

lemma hd_append_eq: "xs \<noteq> [] \<Longrightarrow> ys \<noteq> [] \<Longrightarrow> xs @ r = ys @ r' \<Longrightarrow> hd xs = hd ys"
  by (cases xs; cases ys) simp_all

lemma digit_char: "hd (digits k) = c \<Longrightarrow> is_digit c" and digit_char': "c = hd (digits k) \<Longrightarrow> is_digit c"
  using digits_hd by auto

lemma to_text_same_kind: "hd (to_text v) = hd (to_text w) \<Longrightarrow> same_kind v w"
  by (cases v; cases w)
    (auto simp: same_kind_def is_digit_def quote_def dest!: digit_char digit_char'
      split: if_splits)

lemma to_text_token:
  "delimited r \<Longrightarrow> delimited r' \<Longrightarrow> to_text v @ r = to_text w @ r' \<Longrightarrow> v = w \<and> r = r'"
proof (induction v arbitrary: w r r')
  case JNull
  from hd_append_eq [OF to_text_nonempty to_text_nonempty JNull.prems(3)]
  have "same_kind JNull w" by (rule to_text_same_kind)
  with JNull.prems(3) show ?case by (simp add: same_kind_def)
next
  case (JBool b)
  from hd_append_eq [OF to_text_nonempty to_text_nonempty JBool.prems(3)]
  have "same_kind (JBool b) w" by (rule to_text_same_kind)
  with JBool.prems(3) show ?case by (simp add: same_kind_def split: if_splits)
next
  case (JNum n)
  from hd_append_eq [OF to_text_nonempty to_text_nonempty JNum.prems(3)]
  have "same_kind (JNum n) w" by (rule to_text_same_kind)
  then obtain m where w: "w = JNum m" and sg: "n < 0 \<longleftrightarrow> m < 0" by (auto simp: same_kind_def)
  note d = delimited_not_digit [OF JNum.prems(1)] delimited_not_digit [OF JNum.prems(2)]
  show ?case
  proof (cases "n < 0")
    case True
    with JNum.prems(3) w sg have "digits (nat (- n)) @ r = digits (nat (- m)) @ r'" by simp
    from digits_token [OF this d] True sg w show ?thesis by (simp add: eq_nat_nat_iff)
  next
    case False
    with JNum.prems(3) w sg have "digits (nat n) @ r = digits (nat m) @ r'" by simp
    from digits_token [OF this d] False sg w show ?thesis by (simp add: eq_nat_nat_iff)
  qed
next
  case (JStr s)
  from hd_append_eq [OF to_text_nonempty to_text_nonempty JStr.prems(3)]
  have "same_kind (JStr s) w" by (rule to_text_same_kind)
  then obtain s' where "w = JStr s'" by (auto simp: same_kind_def)
  with JStr.prems(3) show ?case by (auto dest: quote_inj)
next
  case (JArr xs)
  from hd_append_eq [OF to_text_nonempty to_text_nonempty JArr.prems(3)]
  have "same_kind (JArr xs) w" by (rule to_text_same_kind)
  then obtain ys where w: "w = JArr ys" by (auto simp: same_kind_def)
  with JArr.prems(3)
  have e: "commas (map to_text xs) @ CHR '']'' # r = commas (map to_text ys) @ CHR '']'' # r'"
    by simp
  have "xs = ys \<and> r = r'"
  proof (rule commas_inj [where f = to_text and c = "CHR '']''", OF _ _ _ e])
    fix x y r r' assume "x \<in> set xs" "delimited r" "delimited r'" "to_text x @ r = to_text y @ r'"
    then show "x = y \<and> r = r'" by (rule JArr.IH)
  next
    fix y show "to_text y \<noteq> [] \<and> hd (to_text y) \<noteq> CHR '','' \<and> hd (to_text y) \<noteq> CHR '']''"
      using to_text_nonempty [of y] to_text_hd_not_delimiter [of y] by simp
  qed simp
  with w show ?case by simp
next
  case (JObj kvs)
  from hd_append_eq [OF to_text_nonempty to_text_nonempty JObj.prems(3)]
  have "same_kind (JObj kvs) w" by (rule to_text_same_kind)
  then obtain lws where w: "w = JObj lws" by (auto simp: same_kind_def)
  let ?f = "\<lambda>(k, v). quote k @ '':'' @ to_text v"
  from w JObj.prems(3)
  have e: "commas (map ?f kvs) @ CHR ''}'' # r = commas (map ?f lws) @ CHR ''}'' # r'"
    by simp
  have "kvs = lws \<and> r = r'"
  proof (rule commas_inj [where f = ?f and c = "CHR ''}''", OF _ _ _ e])
    fix x y r r' assume x: "x \<in> set kvs" and d: "delimited r" "delimited r'"
      and t: "?f x @ r = ?f y @ r'"
    obtain k v where xk: "x = (k, v)" by (cases x)
    obtain k' v' where yk: "y = (k', v')" by (cases y)
    from t xk yk
    have "quote k @ (CHR '':'' # to_text v @ r) = quote k' @ (CHR '':'' # to_text v' @ r')"
      by simp
    then have k: "k = k'" and tv: "to_text v @ r = to_text v' @ r'"
      by (auto dest: quote_inj)
    from x xk have "v \<in> Basic_BNFs.snds x" by simp
    from JObj.IH [OF x this d tv] k xk yk show "x = y \<and> r = r'" by simp
  next
    fix y :: "string \<times> json"
    show "?f y \<noteq> [] \<and> hd (?f y) \<noteq> CHR '','' \<and> hd (?f y) \<noteq> CHR ''}''"
      by (cases y) (simp add: quote_def)
  qed simp
  with w show ?case by simp
qed

lemma to_text_inj: "to_text v = to_text w \<Longrightarrow> v = w"
  using to_text_token [of "[]" "[]" v w] by (simp add: delimited_def)

section \<open>Scalar references\<close>

text \<open>
  Claim C3, as the program has it. \<^verbatim>\<open>valueContainsRef(value, refKey)\<close> receives the
  value and the key only. It holds exactly for the three strings built from the key:
  the key itself (the bare string), the wrapped marker and the alias marker.
\<close>

theorem valueContainsRef_characterisation:
  "valueContainsRef v refKey \<longleftrightarrow>
     (v = Some (JStr refKey) \<or> v = Some (JStr (''__REF__'' @ refKey))
      \<or> v = Some (JStr (''*'' @ refKey)))"
  by (auto simp: valueContainsRef_def split: option.splits json.splits)

text \<open>
  Claim C3, as stated, fails: a string equal to the \<^verbatim>\<open>name\<close> field of the component
  \<^verbatim>\<open>gpt_a\<close>, and different from its key, is not recognised as a reference to it.
\<close>

theorem valueContainsRef_ignores_name:
  "get_opt (Some (JObj [(''name'', JStr ''shared-endpoint'')])) ''name''
     = Some (JStr ''shared-endpoint'')
   \<and> \<not> valueContainsRef (Some (JStr ''shared-endpoint'')) ''gpt_a''"
  by (simp add: valueContainsRef_def)

section \<open>Expanded objects\<close>

text \<open>
  What \<^verbatim>\<open>objectMatchesKey\<close> decides. Two values have the same serialisation only when
  they are the same value, with the properties in the same order; so the answer is
  true exactly when the value under test is a mapping or a sequence and the computed
  read finds that very value, as an own property of the section or as its prototype.
\<close>

lemma computed_read_Proto: "computed_read s K = Proto p \<Longrightarrow> K = ''__proto__''"
  by (cases "(s, K)" rule: computed_read.cases) (auto split: option.splits if_splits)

lemma configuredResource_Proto: "configuredResource cfg rt K = Proto p \<Longrightarrow> K = ''__proto__''"
  by (auto simp: configuredResource_def Let_def split: if_splits dest: computed_read_Proto)

lemma objectMatchesKey_iff:
  "objectMatchesKey v K cfg rt \<longleftrightarrow>
     is_object v \<and> (\<exists>c. v = Some c \<and> configuredResource cfg rt K \<in> {Val c, Proto c})"
proof (cases v)
  case None
  then show ?thesis by (simp add: objectMatchesKey_def)
next
  case (Some x)
  have o: "is_object (Some x) \<longleftrightarrow> truthy (Some x) \<and> typeof_object (Some x)"
    by (cases x) (simp_all add: is_object_def)
  show ?thesis
  proof (cases "configuredResource cfg rt K")
    case Undefined
    with Some show ?thesis by (simp add: objectMatchesKey_def)
  next
    case (Val c)
    have "is_object (Some x) \<and> truthy (Some c) \<and> to_text x = to_text c
            \<longleftrightarrow> is_object (Some x) \<and> x = c"
      using o by (auto dest: to_text_inj)
    with Some Val o show ?thesis by (auto simp: objectMatchesKey_def)
  next
    case (Proto p)
    have "to_text x = to_text p \<longleftrightarrow> x = p" by (auto dest: to_text_inj)
    with Some Proto o show ?thesis by (auto simp: objectMatchesKey_def)
  next
    case Method
    with Some show ?thesis by (simp add: objectMatchesKey_def)
  qed
qed

lemma objectMatchesKey_own_property:
  "K \<noteq> ''__proto__'' \<Longrightarrow> objectMatchesKey v K cfg rt \<longleftrightarrow> expanded_copy cfg rt K v"
  unfolding objectMatchesKey_iff expanded_copy_def configured_def
  by (cases "configuredResource cfg rt K") (auto dest: configuredResource_Proto)

lemma objectMatchesKey_not_configured:
  "configured cfg rt K = None \<Longrightarrow> K \<noteq> ''__proto__'' \<Longrightarrow> \<not> objectMatchesKey v K cfg rt"
  by (simp add: objectMatchesKey_own_property expanded_copy_def)

lemma objectMatchesKey_not_object: "\<not> is_object v \<Longrightarrow> \<not> objectMatchesKey v K cfg rt"
  by (simp add: objectMatchesKey_iff)

text \<open>
  Claim C2 at a concrete input. The configured LLM \<^verbatim>\<open>gpt_a\<close> and the value under test
  have the same two properties in a different order: they are deeply equal in the
  sense of the specification, and \<^verbatim>\<open>objectMatchesKey\<close> answers false, because the two
  serialisations list the properties in different orders.
\<close>

theorem objectMatchesKey_key_order:
  "deep_equal (JObj [(''name'', JStr ''m''), (''temperature'', JNum 1)])
              (JObj [(''temperature'', JNum 1), (''name'', JStr ''m'')])
   \<and> get_opt (get_opt (map_of
          [(''resources'', JObj [(''llms'', JObj [(''gpt_a'',
              JObj [(''temperature'', JNum 1), (''name'', JStr ''m'')])])])]
          ''resources'') ''llms'') ''gpt_a''
       = Some (JObj [(''temperature'', JNum 1), (''name'', JStr ''m'')])
   \<and> \<not> objectMatchesKey (Some (JObj [(''name'', JStr ''m''), (''temperature'', JNum 1)]))
         ''gpt_a''
         [(''resources'', JObj [(''llms'', JObj [(''gpt_a'',
              JObj [(''temperature'', JNum 1), (''name'', JStr ''m'')])])])]
         ''llm''"
  by (simp add: deep_equal_def objectMatchesKey_def configuredResource_def quote_def
      escape_char_def digits.simps)

text \<open>
  Claim C8 at a concrete input. The section \<^verbatim>\<open>tools\<close> is empty, so no tool is
  configured under the key \<^verbatim>\<open>__proto__\<close>; the computed read finds the prototype of
  the section, which is printed \<^verbatim>\<open>{}\<close> like the empty object under test, and
  \<^verbatim>\<open>objectMatchesKey\<close> answers true.
\<close>

theorem objectMatchesKey_inherited_key:
  "''__proto__'' \<notin> fst ` set (entries (JObj []))
   \<and> objectMatchesKey (Some (JObj [])) ''__proto__'' [(''tools'', JObj [])] ''tool''"
  by (simp add: objectMatchesKey_def configuredResource_def)

section \<open>Component types without a case\<close>

lemma toLowerCase_Table: "toLowerCase ''Table'' = ''table''"
  by code_simp

lemma toLowerCase_Memory: "toLowerCase ''Memory'' = ''memory''"
  by code_simp

lemma validateDeletion_Memory:
  "validateDeletion generateYAML yaml_load cfg ''Memory'' k = Inr None"
  by (simp add: validateDeletion_def applyDeletion_def toLowerCase_Memory)

text \<open>
  Claim C6. When the lower-cased component type is none of the sixteen types the
  validator has a case for, \<^verbatim>\<open>validateDeletion\<close> returns null, whatever the document,
  the key, the serialiser and the parser.
\<close>

theorem validateDeletion_unknown_type:
  "toLowerCase componentType \<notin> set modelled_types \<Longrightarrow>
     validateDeletion generateYAML yaml_load cfg componentType componentKey = Inr None"
  by (simp add: validateDeletion_def applyDeletion_def modelled_types_def)

theorem validateDeletion_unknown_type_witness:
  "toLowerCase ''Table'' \<notin> set modelled_types
   \<and> validateDeletion (\<lambda>c. Inl NonError) (\<lambda>s. Inl NonError) [] ''Table'' ''orders'' = Inr None"
  using validateDeletion_unknown_type
    [of "''Table''" "\<lambda>c. Inl NonError" "\<lambda>s. Inl NonError" "[]" "''orders''"]
  by (simp add: toLowerCase_Table modelled_types_def)

text \<open>
  Claim C10. \<^verbatim>\<open>memory\<close> is not among the cases, so \<^verbatim>\<open>validateDeletion\<close> returns null
  for the type \<^verbatim>\<open>Memory\<close> on every document and every key, and
  \<^verbatim>\<open>safeDelete('Memory', k, deleteAction)\<close> returns after it has called the callback:
  the call is counted and the document of the store is the one the callback leaves.
\<close>

theorem memory_deletion_never_blocked:
  "validateDeletion generateYAML yaml_load cfg ''Memory'' k = Inr None
   \<and> (\<exists>b st'. safeDelete generateYAML yaml_load ''Memory'' k deleteAction st = Inr (b, st')
         \<and> invocations st' = Suc (invocations st)
         \<and> config st' = fst (deleteAction (config st)))"
  by (auto simp: safeDelete_def validateDeletion_Memory call_def addNotification_def
      split: prod.splits option.splits)

section \<open>Validation before deletion\<close>

lemma diagnostic_nonempty: "diagnostic e \<noteq> []"
  by (simp add: diagnostic_def split: thrown.splits option.splits)

lemma validateConfig_nonempty: "validateConfig g l c = Some d \<Longrightarrow> d \<noteq> []"
  by (auto simp: validateConfig_def diagnostic_nonempty split: sum.splits)

lemma validateDeletion_nonempty: "validateDeletion g l c t k = Inr (Some d) \<Longrightarrow> d \<noteq> []"
  by (auto simp: validateDeletion_def validateConfig_nonempty split: option.splits sum.splits)

text \<open>
  Claim C7. When \<^verbatim>\<open>validateDeletion\<close> returns a diagnostic, \<^verbatim>\<open>safeDelete\<close> returns
  false and leaves the stores as they were but for one more notification, the last:
  an error with the message \<^verbatim>\<open>Cannot delete\<close> and the diagnostic as details. The
  callback has not been called: the count of calls and the document are unchanged.
  When \<^verbatim>\<open>validateDeletion\<close> returns null, the callback is called once and the
  document is the one it leaves; \<^verbatim>\<open>safeDelete\<close> returns true and the last notification
  is a success if the callback returns; it returns false and the last notification is
  an error with the message \<^verbatim>\<open>Failed to delete\<close> if the callback throws, with the
  message of the error thrown as details, or \<^verbatim>\<open>Unknown error\<close> when what was thrown is
  not an error.
\<close>

theorem safeDelete_validates_first:
  "(validateDeletion g l (config st) t k = Inr (Some d) \<longrightarrow>
      safeDelete g l t k act st
        = Inr (False,
               st\<lparr>notifications := notifications st
                    @ [\<lparr>ntype = error,
                        message = ''Cannot delete '' @ t @ '' '' @ [CHR 0x22] @ k @ [CHR 0x22],
                        details = Some d\<rparr>]\<rparr>))
   \<and> (validateDeletion g l (config st) t k = Inr None \<longrightarrow>
        (act (config st) = (c, None) \<longrightarrow>
           safeDelete g l t k act st
             = Inr (True,
                    st\<lparr>config := c, invocations := Suc (invocations st),
                       notifications := notifications st
                         @ [\<lparr>ntype = success,
                             message = t @ '' '' @ [CHR 0x22] @ k @ [CHR 0x22] @ '' deleted'',
                             details = None\<rparr>]\<rparr>))
        \<and> (act (config st) = (c, Some (ErrorObj m)) \<longrightarrow>
             safeDelete g l t k act st
               = Inr (False,
                      st\<lparr>config := c, invocations := Suc (invocations st),
                         notifications := notifications st
                           @ [\<lparr>ntype = error,
                               message = ''Failed to delete '' @ t @ '' '' @ [CHR 0x22] @ k
                                 @ [CHR 0x22],
                               details = Some m\<rparr>]\<rparr>))
        \<and> (act (config st) = (c, Some NonError) \<longrightarrow>
             safeDelete g l t k act st
               = Inr (False,
                      st\<lparr>config := c, invocations := Suc (invocations st),
                         notifications := notifications st
                           @ [\<lparr>ntype = error,
                               message = ''Failed to delete '' @ t @ '' '' @ [CHR 0x22] @ k
                                 @ [CHR 0x22],
                               details = Some ''Unknown error''\<rparr>]\<rparr>)))"
proof (intro conjI impI)
  assume v: "validateDeletion g l (config st) t k = Inr (Some d)"
  then have "d \<noteq> []" by (rule validateDeletion_nonempty)
  with v show "safeDelete g l t k act st
        = Inr (False,
               st\<lparr>notifications := notifications st
                    @ [\<lparr>ntype = error,
                        message = ''Cannot delete '' @ t @ '' '' @ [CHR 0x22] @ k @ [CHR 0x22],
                        details = Some d\<rparr>]\<rparr>)"
    by (simp add: safeDelete_def addNotification_def label_def)
next
  assume "validateDeletion g l (config st) t k = Inr None" and "act (config st) = (c, None)"
  then show "safeDelete g l t k act st
             = Inr (True,
                    st\<lparr>config := c, invocations := Suc (invocations st),
                       notifications := notifications st
                         @ [\<lparr>ntype = success,
                             message = t @ '' '' @ [CHR 0x22] @ k @ [CHR 0x22] @ '' deleted'',
                             details = None\<rparr>]\<rparr>)"
    by (simp add: safeDelete_def call_def addNotification_def label_def)
next
  assume "validateDeletion g l (config st) t k = Inr None"
    and "act (config st) = (c, Some (ErrorObj m))"
  then show "safeDelete g l t k act st
               = Inr (False,
                      st\<lparr>config := c, invocations := Suc (invocations st),
                         notifications := notifications st
                           @ [\<lparr>ntype = error,
                               message = ''Failed to delete '' @ t @ '' '' @ [CHR 0x22] @ k
                                 @ [CHR 0x22],
                               details = Some m\<rparr>]\<rparr>)"
    by (simp add: safeDelete_def call_def addNotification_def label_def error_text_def)
next
  assume "validateDeletion g l (config st) t k = Inr None"
    and "act (config st) = (c, Some NonError)"
  then show "safeDelete g l t k act st
               = Inr (False,
                      st\<lparr>config := c, invocations := Suc (invocations st),
                         notifications := notifications st
                           @ [\<lparr>ntype = error,
                               message = ''Failed to delete '' @ t @ '' '' @ [CHR 0x22] @ k
                                 @ [CHR 0x22],
                               details = Some ''Unknown error''\<rparr>]\<rparr>)"
    by (simp add: safeDelete_def call_def addNotification_def label_def error_text_def)
qed

lemma example_blocked:
  "validateDeletion serializer_ok (parser_undefined_alias ''search'') (config example_stores)
       ''Tool'' ''search''
     = Inr (Some (''This component is referenced by '' @ [CHR 0x22] @ ''search'' @ [CHR 0x22]
                  @ ''. Remove that reference first.''))"
  by code_simp

lemma example_allowed:
  "validateDeletion serializer_ok parser_ok (config example_stores) ''Tool'' ''search''
     = Inr None"
  by code_simp

lemma example_actions:
  "action_ok (config example_stores)
     = ([(''tools'', JObj [(''other'', JNum 1)]),
         (''agents'', JObj [(''a1'', JObj [(''model'', JStr ''*gpt'')])])], None)"
  "action_throws (config example_stores)
     = (config example_stores, Some (ErrorObj ''store is read-only''))"
  by (simp_all add: action_ok_def action_throws_def example_stores_def example_document_def)

theorem safeDelete_validates_first_witness:
  "safeDelete serializer_ok (parser_undefined_alias ''search'') ''Tool'' ''search'' action_ok
       example_stores
     = Inr (False,
            \<lparr>config = example_document,
             notifications =
               [\<lparr>ntype = error,
                 message = ''Cannot delete Tool '' @ [CHR 0x22] @ ''search'' @ [CHR 0x22],
                 details = Some (''This component is referenced by '' @ [CHR 0x22] @ ''search''
                                 @ [CHR 0x22] @ ''. Remove that reference first.'')\<rparr>],
             invocations = 0\<rparr>)
   \<and> safeDelete serializer_ok parser_ok ''Tool'' ''search'' action_ok example_stores
       = Inr (True,
              \<lparr>config = [(''tools'', JObj [(''other'', JNum 1)]),
                         (''agents'', JObj [(''a1'', JObj [(''model'', JStr ''*gpt'')])])],
               notifications =
                 [\<lparr>ntype = success,
                   message = ''Tool '' @ [CHR 0x22] @ ''search'' @ [CHR 0x22] @ '' deleted'',
                   details = None\<rparr>],
               invocations = 1\<rparr>)
   \<and> safeDelete serializer_ok parser_ok ''Tool'' ''search'' action_throws example_stores
       = Inr (False,
              \<lparr>config = example_document,
               notifications =
                 [\<lparr>ntype = error,
                   message = ''Failed to delete Tool '' @ [CHR 0x22] @ ''search'' @ [CHR 0x22],
                   details = Some ''store is read-only''\<rparr>],
               invocations = 1\<rparr>)
   \<and> safeDelete serializer_ok parser_ok ''Tool'' ''search'' (\<lambda>c. (c, Some NonError))
         example_stores
       = Inr (False,
              \<lparr>config = example_document,
               notifications =
                 [\<lparr>ntype = error,
                   message = ''Failed to delete Tool '' @ [CHR 0x22] @ ''search'' @ [CHR 0x22],
                   details = Some ''Unknown error''\<rparr>],
               invocations = 1\<rparr>)"
proof -
  note th = safeDelete_validates_first
  from th [where g = serializer_ok and l = "parser_undefined_alias ''search''"
      and st = example_stores and t = "''Tool''" and k = "''search''" and act = action_ok
      and d = "''This component is referenced by '' @ [CHR 0x22] @ ''search'' @ [CHR 0x22]
                 @ ''. Remove that reference first.''"]
    example_blocked
  have a: "safeDelete serializer_ok (parser_undefined_alias ''search'') ''Tool'' ''search''
             action_ok example_stores
     = Inr (False,
            \<lparr>config = example_document,
             notifications =
               [\<lparr>ntype = error,
                 message = ''Cannot delete Tool '' @ [CHR 0x22] @ ''search'' @ [CHR 0x22],
                 details = Some (''This component is referenced by '' @ [CHR 0x22] @ ''search''
                                 @ [CHR 0x22] @ ''. Remove that reference first.'')\<rparr>],
             invocations = 0\<rparr>)"
    by (simp add: example_stores_def)
  from th [where g = serializer_ok and l = parser_ok and st = example_stores
      and t = "''Tool''" and k = "''search''" and act = action_ok
      and c = "[(''tools'', JObj [(''other'', JNum 1)]),
                (''agents'', JObj [(''a1'', JObj [(''model'', JStr ''*gpt'')])])]"]
    example_allowed example_actions(1)
  have b: "safeDelete serializer_ok parser_ok ''Tool'' ''search'' action_ok example_stores
       = Inr (True,
              \<lparr>config = [(''tools'', JObj [(''other'', JNum 1)]),
                         (''agents'', JObj [(''a1'', JObj [(''model'', JStr ''*gpt'')])])],
               notifications =
                 [\<lparr>ntype = success,
                   message = ''Tool '' @ [CHR 0x22] @ ''search'' @ [CHR 0x22] @ '' deleted'',
                   details = None\<rparr>],
               invocations = 1\<rparr>)"
    by (simp add: example_stores_def)
  from th [where g = serializer_ok and l = parser_ok and st = example_stores
      and t = "''Tool''" and k = "''search''" and act = action_throws
      and c = "config example_stores" and m = "''store is read-only''"]
    example_allowed example_actions(2)
  have c: "safeDelete serializer_ok parser_ok ''Tool'' ''search'' action_throws example_stores
       = Inr (False,
              \<lparr>config = example_document,
               notifications =
                 [\<lparr>ntype = error,
                   message = ''Failed to delete Tool '' @ [CHR 0x22] @ ''search'' @ [CHR 0x22],
                   details = Some ''store is read-only''\<rparr>],
               invocations = 1\<rparr>)"
    by (simp add: example_stores_def)
  from th [where g = serializer_ok and l = parser_ok and st = example_stores
      and t = "''Tool''" and k = "''search''" and act = "\<lambda>c. (c, Some NonError)"
      and c = "config example_stores"]
    example_allowed
  have d: "safeDelete serializer_ok parser_ok ''Tool'' ''search'' (\<lambda>c. (c, Some NonError))
         example_stores
       = Inr (False,
              \<lparr>config = example_document,
               notifications =
                 [\<lparr>ntype = error,
                   message = ''Failed to delete Tool '' @ [CHR 0x22] @ ''search'' @ [CHR 0x22],
                   details = Some ''Unknown error''\<rparr>],
               invocations = 1\<rparr>)"
    by (simp add: example_stores_def)
  from a b c d show ?thesis by blast
qed

section \<open>The finder for LLM resources\<close>

lemma for_each_field_dep:
  "JNull \<notin> snd ` set es \<Longrightarrow>
     for_each (field_dep cfg rt k ty f) es = Inr (field_deps cfg rt k ty f es)"
proof (induction es)
  case Nil
  then show ?case by (simp add: field_deps_def)
next
  case (Cons e es)
  obtain key x where e: "e = (key, x)" by (cases e)
  with Cons.prems have "x \<noteq> JNull" and "JNull \<notin> snd ` set es" by auto
  with Cons.IH e show ?case
    by (simp add: field_deps_def field_dep_def get_def andThen_def)
qed

lemma for_entries_field_dep:
  "no_null_entries s \<Longrightarrow>
     for_entries s (field_dep cfg rt k ty f)
       = Inr (case s of
                None \<Rightarrow> []
              | Some v \<Rightarrow> if truthy (Some v) then field_deps cfg rt k ty f (entries v) else [])"
  by (cases s) (simp_all add: for_entries_def no_null_entries_def for_each_field_dep)

lemma field_deps_mem:
  "DependencyInfo ty' key f' \<in> set (field_deps cfg rt k ty f es) \<longleftrightarrow>
     ty' = ty \<and> f' = f \<and> (\<exists>x. (key, x) \<in> set es \<and> refers (get_opt (Some x) f) k cfg rt)"
  by (auto simp: field_deps_def split: if_splits)

lemma findLlmDependencies_agent_record:
  assumes "no_null_entries (map_of cfg ''agents'')"
      and "no_null_entries (map_of cfg ''guardrails'')"
      and "no_null_entries (get_opt (map_of cfg ''resources'') ''vector_stores'')"
      and "map_of cfg ''agents'' = Some (JObj agents)"
  shows "\<exists>ds. findLlmDependencies cfg k = Inr ds
           \<and> (DependencyInfo ''agent'' A ''model'' \<in> set ds \<longleftrightarrow>
                (\<exists>x. (A, x) \<in> set agents \<and> refers (get_opt (Some x) ''model'') k cfg ''llm''))"
  using assms
  by (auto simp: findLlmDependencies_def for_entries_field_dep andThen_def Let_def field_deps_mem
      split: option.splits)

lemma objectMatchesKey_llm:
  assumes "get_opt (map_of cfg ''resources'') ''llms'' = Some (JObj llms)"
      and "map_of llms k = Some b"
  shows "objectMatchesKey (Some (JObj a)) k cfg ''llm'' \<longleftrightarrow>
           truthy (Some b) \<and> to_text (JObj a) = to_text b"
  using assms by (auto simp: objectMatchesKey_def configuredResource_def Let_def)

text \<open>
  Claim C9, as the program has it. Let the document hold two LLM resources under the
  keys \<open>ka\<close> and \<open>kb\<close>, the first a mapping, that differ as values (they may
  share the same \<^verbatim>\<open>name\<close>), and let the \<^verbatim>\<open>model\<close> of the agent \<open>A\<close> be the expanded
  object of the first. If no agent, guardrail or vector store is null, both calls of
  \<^verbatim>\<open>findLlmDependencies\<close> return; the record of the agent is among the dependents of
  \<open>ka\<close> and is not among those of \<open>kb\<close>.
\<close>

theorem expanded_reference_not_conflated:
  assumes llms: "get_opt (map_of cfg ''resources'') ''llms'' = Some (JObj llms)"
      and a: "map_of llms ka = Some (JObj a)"
      and b: "map_of llms kb = Some b"
      and differ: "JObj a \<noteq> b"
      and agents: "map_of cfg ''agents'' = Some (JObj agents)"
      and dist: "distinct (map fst agents)"
      and agent: "(A, agent) \<in> set agents"
      and model: "get_opt (Some agent) ''model'' = Some (JObj a)"
      and nn: "no_null_entries (map_of cfg ''agents'')"
        "no_null_entries (map_of cfg ''guardrails'')"
        "no_null_entries (get_opt (map_of cfg ''resources'') ''vector_stores'')"
  shows "\<exists>da db. findLlmDependencies cfg ka = Inr da \<and> findLlmDependencies cfg kb = Inr db
           \<and> DependencyInfo ''agent'' A ''model'' \<in> set da
           \<and> DependencyInfo ''agent'' A ''model'' \<notin> set db"
proof -
  obtain da where da: "findLlmDependencies cfg ka = Inr da"
    and ma: "DependencyInfo ''agent'' A ''model'' \<in> set da \<longleftrightarrow>
                (\<exists>x. (A, x) \<in> set agents \<and> refers (get_opt (Some x) ''model'') ka cfg ''llm'')"
    using findLlmDependencies_agent_record [OF nn agents, of ka A] by blast
  obtain db where db: "findLlmDependencies cfg kb = Inr db"
    and mb: "DependencyInfo ''agent'' A ''model'' \<in> set db \<longleftrightarrow>
                (\<exists>x. (A, x) \<in> set agents \<and> refers (get_opt (Some x) ''model'') kb cfg ''llm'')"
    using findLlmDependencies_agent_record [OF nn agents, of kb A] by blast
  have "refers (Some (JObj a)) ka cfg ''llm''"
    by (simp add: refers_def objectMatchesKey_llm [OF llms a])
  with agent model have ina: "DependencyInfo ''agent'' A ''model'' \<in> set da"
    unfolding ma by auto
  from differ have "to_text (JObj a) \<noteq> to_text b"
    by (blast dest: to_text_inj)
  then have nb: "\<not> refers (Some (JObj a)) kb cfg ''llm''"
    by (simp add: refers_def objectMatchesKey_llm [OF llms b] valueContainsRef_def)
  have "x = agent" if "(A, x) \<in> set agents" for x
    using that agent dist by (meson eq_key_imp_eq_value)
  with nb model have "DependencyInfo ''agent'' A ''model'' \<notin> set db"
    unfolding mb by auto
  with da db ina show ?thesis by blast
qed

text \<open>The scenario of the specification: the document holds nothing else.\<close>

lemma scenario_dependencies:
  "findLlmDependencies scenario ''gpt_b'' = Inr []
   \<and> findLlmDependencies scenario ''gpt_a'' = Inr [DependencyInfo ''agent'' ''helper'' ''model'']"
  by code_simp

theorem expanded_reference_not_conflated_witness:
  "\<exists>da db. findLlmDependencies scenario ''gpt_a'' = Inr da
       \<and> findLlmDependencies scenario ''gpt_b'' = Inr db
       \<and> DependencyInfo ''agent'' ''helper'' ''model'' \<in> set da
       \<and> DependencyInfo ''agent'' ''helper'' ''model'' \<notin> set db"
proof -
  show ?thesis
    by (rule expanded_reference_not_conflated
        [of scenario "[(''gpt_a'', gpt_a), (''gpt_b'', gpt_b)]" "''gpt_a''"
          "[(''name'', JStr ''shared-endpoint''), (''temperature'', JNum 0)]" "''gpt_b''" gpt_b
          "[(''helper'', JObj [(''model'', gpt_a)])]" "''helper''" "JObj [(''model'', gpt_a)]"])
      (simp_all add: scenario_def two_llms_def gpt_a_def gpt_b_def no_null_entries_def)
qed

text \<open>
  Claim C9, as stated, fails: in a document with the two resources and the agent of
  the scenario, a second agent refers to \<^verbatim>\<open>gpt_b\<close> by alias, and the dependents of
  \<^verbatim>\<open>gpt_b\<close> are not the empty list.
\<close>

theorem gpt_b_has_other_dependents:
  "get_opt (get_opt (map_of scenario_with_alias ''resources'') ''llms'') ''gpt_a'' = Some gpt_a
   \<and> get_opt (get_opt (map_of scenario_with_alias ''resources'') ''llms'') ''gpt_b'' = Some gpt_b
   \<and> get_opt (Some gpt_a) ''name'' = get_opt (Some gpt_b) ''name''
   \<and> get_opt (Some gpt_a) ''temperature'' \<noteq> get_opt (Some gpt_b) ''temperature''
   \<and> get_opt (get_opt (map_of scenario_with_alias ''agents'') ''helper'') ''model'' = Some gpt_a
   \<and> findLlmDependencies scenario_with_alias ''gpt_b''
       = Inr [DependencyInfo ''agent'' ''other'' ''model'']"
  by code_simp

section \<open>The effect of validation on the heap\<close>

lemma fresh_mono: "fresh lo hi as \<Longrightarrow> lo' \<le> lo \<Longrightarrow> hi \<le> hi' \<Longrightarrow> fresh lo' hi' as"
  by (auto simp: fresh_def list_all_iff)

lemma fresh_append [simp]: "fresh lo hi (as @ bs) \<longleftrightarrow> fresh lo hi as \<and> fresh lo hi bs"
  by (auto simp: fresh_def)

lemma fresh_Nil [simp]: "fresh lo hi []"
  by (simp add: fresh_def)

lemma refs_heap_simps [simp]:
  "refs_heap [] = []" "refs_heap (objs @ objs') = refs_heap objs @ refs_heap objs'"
  "refs_heap [ob] = refs_obj ob"
  by (simp_all add: refs_heap_def)

lemma alloc_extends:
  "alloc h t = (h', v) \<Longrightarrow>
     \<exists>new. h' = h @ new \<and> fresh (length h) (length h') (refs_val v @ refs_heap new)"
  "alloc_items h ts = (h', vs) \<Longrightarrow>
     \<exists>new. h' = h @ new \<and> fresh (length h) (length h') (concat (map refs_val vs) @ refs_heap new)"
  "alloc_fields h kvs = (h', fs) \<Longrightarrow>
     \<exists>new. h' = h @ new
       \<and> fresh (length h) (length h') (concat (map (\<lambda>p. refs_val (snd p)) fs) @ refs_heap new)"
proof (induction h t and h ts and h kvs arbitrary: h' v and h' vs and h' fs
    rule: alloc_alloc_items_alloc_fields.induct)
  case (5 h xs)
  obtain h1 vs where a: "alloc_items h xs = (h1, vs)" by (cases "alloc_items h xs")
  from "5.IH" [OF a] obtain new where n: "h1 = h @ new"
    and f: "fresh (length h) (length h1) (concat (map refs_val vs) @ refs_heap new)" by blast
  from "5.prems" a have h': "h' = h1 @ [HArr vs]" and v: "v = HRef (length h1)" by simp_all
  from f have "fresh (length h) (length h') (concat (map refs_val vs) @ refs_heap new)"
    by (rule fresh_mono) (simp_all add: h')
  moreover have "fresh (length h) (length h') (refs_val v)"
    by (simp add: v h' n refs_val_def fresh_def)
  ultimately have "fresh (length h) (length h') (refs_val v @ refs_heap (new @ [HArr vs]))"
    by (simp add: refs_obj_def)
  then show ?case using n h' by auto
next
  case (6 h kvs)
  obtain h1 fs where a: "alloc_fields h kvs = (h1, fs)" by (cases "alloc_fields h kvs")
  from "6.IH" [OF a] obtain new where n: "h1 = h @ new"
    and f: "fresh (length h) (length h1)
              (concat (map (\<lambda>p. refs_val (snd p)) fs) @ refs_heap new)" by blast
  from "6.prems" a have h': "h' = h1 @ [HObj fs]" and v: "v = HRef (length h1)" by simp_all
  from f have "fresh (length h) (length h')
              (concat (map (\<lambda>p. refs_val (snd p)) fs) @ refs_heap new)"
    by (rule fresh_mono) (simp_all add: h')
  moreover have "fresh (length h) (length h') (refs_val v)"
    by (simp add: v h' n refs_val_def fresh_def)
  ultimately have "fresh (length h) (length h') (refs_val v @ refs_heap (new @ [HObj fs]))"
    by (simp add: refs_obj_def)
  then show ?case using n h' by auto
next
  case (8 h x xs)
  obtain h1 v1 where a: "alloc h x = (h1, v1)" by (cases "alloc h x")
  obtain h2 vs2 where b: "alloc_items h1 xs = (h2, vs2)" by (cases "alloc_items h1 xs")
  from "8.IH"(1) [OF a] obtain n1 where n1: "h1 = h @ n1"
    and f1: "fresh (length h) (length h1) (refs_val v1 @ refs_heap n1)" by blast
  from "8.IH"(2) [OF a [symmetric] b] obtain n2 where n2: "h2 = h1 @ n2"
    and f2: "fresh (length h1) (length h2) (concat (map refs_val vs2) @ refs_heap n2)" by blast
  from "8.prems" a b have r: "h' = h2" "vs = v1 # vs2" by simp_all
  from f1 have "fresh (length h) (length h2) (refs_val v1 @ refs_heap n1)"
    by (rule fresh_mono) (simp_all add: n2)
  moreover from f2 have "fresh (length h) (length h2) (concat (map refs_val vs2) @ refs_heap n2)"
    by (rule fresh_mono) (simp_all add: n1)
  ultimately
  have "fresh (length h) (length h2) (concat (map refs_val (v1 # vs2)) @ refs_heap (n1 @ n2))"
    by simp
  then show ?case using n1 n2 r by auto
next
  case (10 h k x kvs)
  obtain h1 v1 where a: "alloc h x = (h1, v1)" by (cases "alloc h x")
  obtain h2 fs2 where b: "alloc_fields h1 kvs = (h2, fs2)" by (cases "alloc_fields h1 kvs")
  from "10.IH"(1) [OF a] obtain n1 where n1: "h1 = h @ n1"
    and f1: "fresh (length h) (length h1) (refs_val v1 @ refs_heap n1)" by blast
  from "10.IH"(2) [OF a [symmetric] b] obtain n2 where n2: "h2 = h1 @ n2"
    and f2: "fresh (length h1) (length h2)
               (concat (map (\<lambda>p. refs_val (snd p)) fs2) @ refs_heap n2)" by blast
  from "10.prems" a b have r: "h' = h2" "fs = (k, v1) # fs2" by simp_all
  from f1 have "fresh (length h) (length h2) (refs_val v1 @ refs_heap n1)"
    by (rule fresh_mono) (simp_all add: n2)
  moreover from f2 have "fresh (length h) (length h2)
               (concat (map (\<lambda>p. refs_val (snd p)) fs2) @ refs_heap n2)"
    by (rule fresh_mono) (simp_all add: n1)
  ultimately
  have "fresh (length h) (length h2)
          (concat (map (\<lambda>p. refs_val (snd p)) ((k, v1) # fs2)) @ refs_heap (n1 @ n2))"
    by simp
  then show ?case using n1 n2 r by auto
qed (auto simp: refs_val_def)


lemma set_refs_heap: "set (refs_heap objs) = (\<Union>ob\<in>set objs. set (refs_obj ob))"
  by (simp add: refs_heap_def)

lemma fresh_iff: "fresh lo hi as \<longleftrightarrow> (\<forall>a\<in>set as. lo \<le> a \<and> a < hi)"
  by (simp add: fresh_def list_all_iff)

lemma nth_in_drop:
  assumes "lo \<le> a" and "a < length h"
  shows "h ! a \<in> set (drop lo h)"
proof -
  from assms have "a - lo < length (drop lo h)" by simp
  then have "drop lo h ! (a - lo) \<in> set (drop lo h)" by (rule nth_mem)
  moreover from assms have "drop lo h ! (a - lo) = h ! a" by simp
  ultimately show ?thesis by simp
qed

lemma hget_fresh:
  assumes c: "closed lo h" and v: "fresh lo (length h) (refs_val v)"
    and g: "hget h (Some v) name = Some w"
  shows "fresh lo (length h) (refs_val w)"
proof -
  from g obtain a fs where a: "v = HRef a" "a < length h" "h ! a = HObj fs" "map_of fs name = Some w"
    by (auto simp: hget_def split: hval.splits if_splits hobj.splits)
  from v a have lo: "lo \<le> a" by (simp add: refs_val_def fresh_def)
  with a have "HObj fs \<in> set (drop lo h)"
    using nth_in_drop [of lo a h] by simp
  moreover from a have "(name, w) \<in> set fs" by (simp add: map_of_SomeD)
  then have "set (refs_val w) \<subseteq> set (refs_obj (HObj fs))"
    by (force simp: refs_obj_def)
  ultimately have "set (refs_val w) \<subseteq> set (refs_heap (drop lo h))"
    by (auto simp: set_refs_heap)
  with c show ?thesis by (auto simp: closed_def fresh_iff)
qed

lemma hget_None [simp]: "hget h None name = None"
  by (simp add: hget_def)

lemma hget_path_None [simp]: "hget_path h None names = None"
  by (induction names) simp_all

lemma hget_path_fresh:
  "closed lo h \<Longrightarrow> fresh lo (length h) (refs_val v) \<Longrightarrow> hget_path h (Some v) names = Some w
     \<Longrightarrow> fresh lo (length h) (refs_val w)"
proof (induction names arbitrary: v)
  case Nil
  then show ?case by simp
next
  case (Cons name names)
  show ?case
  proof (cases "hget h (Some v) name")
    case None
    with Cons.prems show ?thesis by simp
  next
    case (Some u)
    with Cons.prems have "fresh lo (length h) (refs_val u)" by (auto intro: hget_fresh)
    with Cons.IH [of u] Cons.prems Some show ?thesis by simp
  qed
qed

lemma shrunk_refs: "shrunk ob ob' \<Longrightarrow> set (refs_obj ob') \<subseteq> set (refs_obj ob)"
  by (auto simp: shrunk_def refs_obj_def refs_val_def split: hobj.splits hval.splits)

lemma heap_delete_cases:
  assumes "heap_delete h s k = Inr (h2, slot)"
  shows "h2 = h
         \<or> (\<exists>a ob'. s = Some (HRef a) \<and> a < length h \<and> shrunk (h ! a) ob' \<and> h2 = h[a := ob'])"
proof (cases "\<exists>a. s = Some (HRef a) \<and> a < length h")
  case False
  with assms have "h2 = h"
    by (auto simp: heap_delete_def split: if_splits option.splits hval.splits)
  then show ?thesis ..
next
  case True
  then obtain a where a: "s = Some (HRef a)" "a < length h" by blast
  show ?thesis
  proof (cases "h ! a")
    case (HObj fs)
    with assms a have "h2 = h[a := HObj (filter (\<lambda>p. fst p \<noteq> k) fs)]"
      by (simp add: heap_delete_def)
    moreover from HObj have "shrunk (h ! a) (HObj (filter (\<lambda>p. fst p \<noteq> k) fs))"
      by (simp add: shrunk_def)
    ultimately show ?thesis using a by blast
  next
    case (HArr vs)
    show ?thesis
    proof (cases "own_index (length vs) k")
      case None
      with assms a HArr have "h2 = h" by (simp add: heap_delete_def split: if_splits)
      then show ?thesis ..
    next
      case (Some i)
      with assms a HArr have "h2 = h[a := HArr (vs[i := HEmpty])]"
        by (simp add: heap_delete_def split: if_splits)
      moreover from HArr have "shrunk (h ! a) (HArr (vs[i := HEmpty]))"
        using set_update_subset_insert [of vs i HEmpty] by (simp add: shrunk_def)
      ultimately show ?thesis using a by blast
    qed
  qed
qed

lemma heap_delete_length: "heap_delete h s k = Inr (h2, slot) \<Longrightarrow> length h2 = length h"
  by (auto dest: heap_delete_cases)

lemma heap_delete_take:
  assumes "s = None \<or> (\<exists>w. s = Some w \<and> fresh lo (length h) (refs_val w))"
    and "heap_delete h s k = Inr (h2, slot)"
  shows "take lo h2 = take lo h"
  using heap_delete_cases [OF assms(2)]
proof
  assume "h2 = h"
  then show ?thesis by simp
next
  assume "\<exists>a ob'. s = Some (HRef a) \<and> a < length h \<and> shrunk (h ! a) ob' \<and> h2 = h[a := ob']"
  then obtain a ob' where a: "s = Some (HRef a)" "h2 = h[a := ob']" by blast
  with assms(1) have "lo \<le> a" by (simp add: refs_val_def fresh_def)
  with a show ?thesis by simp
qed

lemma heap_delete_closed:
  assumes c: "closed lo h" and d: "heap_delete h s k = Inr (h2, slot)"
  shows "closed lo h2"
proof -
  have "set (refs_heap (drop lo h2)) \<subseteq> set (refs_heap (drop lo h))"
    using heap_delete_cases [OF d]
  proof
    assume "h2 = h"
    then show ?thesis by simp
  next
    assume "\<exists>a ob'. s = Some (HRef a) \<and> a < length h \<and> shrunk (h ! a) ob' \<and> h2 = h[a := ob']"
    then obtain a ob' where a: "a < length h" "shrunk (h ! a) ob'" and hd: "h2 = h[a := ob']"
      by blast
    show ?thesis
    proof (cases "lo \<le> a")
      case False
      then have "drop lo (h[a := ob']) = drop lo h" by simp
      with hd show ?thesis by simp
    next
      case True
      then have dr: "drop lo (h[a := ob']) = (drop lo h)[a - lo := ob']"
        by (simp add: drop_update_swap)
      from True a have "h ! a \<in> set (drop lo h)"
        using nth_in_drop [of lo a h] by simp
      moreover from a have "set (refs_obj ob') \<subseteq> set (refs_obj (h ! a))"
        by (simp add: shrunk_refs)
      moreover have "set ((drop lo h)[a - lo := ob']) \<subseteq> insert ob' (set (drop lo h))"
        by (rule set_update_subset_insert)
      ultimately show ?thesis
        unfolding hd dr set_refs_heap by blast
    qed
  qed
  with c heap_delete_length [OF d] show ?thesis by (auto simp: closed_def fresh_iff)
qed

lemma those_map_Some:
  "those (map f xs) = Some ys \<Longrightarrow> x \<in> set xs \<Longrightarrow> \<exists>y. f x = Some y"
  by (induction xs arbitrary: ys) (auto split: option.splits)

lemma read_append: "read n h v = Some t \<Longrightarrow> read n (h @ ext) v = Some t"
proof (induction n arbitrary: v t)
  case 0
  then show ?case by (cases v) simp_all
next
  case (Suc n)
  show ?case
  proof (cases v)
    case (HRef a)
    with Suc.prems have a: "a < length h" by (simp split: if_splits)
    show ?thesis
    proof (cases "h ! a")
      case (HArr vs)
      with Suc.prems HRef a obtain ts where ts: "those (map (read n h) vs) = Some ts"
        by auto
      have "map (read n (h @ ext)) vs = map (read n h) vs"
      proof (rule map_cong [OF refl])
        fix x assume "x \<in> set vs"
        with ts obtain y where "read n h x = Some y" by (blast dest: those_map_Some)
        with Suc.IH show "read n (h @ ext) x = read n h x" by simp
      qed
      then show ?thesis using Suc.prems by (simp add: HRef a HArr nth_append trans_less_add1 del: map_eq_conv)
    next
      case (HObj fs)
      with Suc.prems HRef a obtain ts
        where ts: "those (map (\<lambda>(k, v). map_option (Pair k) (read n h v)) fs) = Some ts"
        by auto
      have "map (\<lambda>(k, v). map_option (Pair k) (read n (h @ ext) v)) fs
              = map (\<lambda>(k, v). map_option (Pair k) (read n h v)) fs"
      proof (rule map_cong [OF refl])
        fix x assume x: "x \<in> set fs"
        obtain k u where e: "x = (k, u)" by (cases x)
        from those_map_Some [OF ts x] e obtain y where "read n h u = Some y" by auto
        with Suc.IH e
        show "(case x of (k, v) \<Rightarrow> map_option (Pair k) (read n (h @ ext) v))
                = (case x of (k, v) \<Rightarrow> map_option (Pair k) (read n h v))" by simp
      qed
      then show ?thesis using Suc.prems by (simp add: HRef a HObj nth_append trans_less_add1 del: map_eq_conv)
    qed
  qed (use Suc.prems in simp_all)
qed

lemma read_Suc: "read n h v = Some t \<Longrightarrow> read (Suc n) h v = Some t"
proof (induction n arbitrary: v t)
  case 0
  then show ?case by (cases v) simp_all
next
  case (Suc n)
  show ?case
  proof (cases v)
    case (HRef a)
    with Suc.prems have a: "a < length h" by (simp split: if_splits)
    show ?thesis
    proof (cases "h ! a")
      case (HArr vs)
      with Suc.prems HRef a obtain ts where ts: "those (map (read n h) vs) = Some ts"
        by auto
      have "map (read (Suc n) h) vs = map (read n h) vs"
      proof (rule map_cong [OF refl])
        fix x assume "x \<in> set vs"
        with ts obtain y where "read n h x = Some y" by (blast dest: those_map_Some)
        with Suc.IH show "read (Suc n) h x = read n h x" by simp
      qed
      then show ?thesis using Suc.prems by (simp add: HRef a HArr del: map_eq_conv)
    next
      case (HObj fs)
      with Suc.prems HRef a obtain ts
        where ts: "those (map (\<lambda>(k, v). map_option (Pair k) (read n h v)) fs) = Some ts"
        by auto
      have "map (\<lambda>(k, v). map_option (Pair k) (read (Suc n) h v)) fs
              = map (\<lambda>(k, v). map_option (Pair k) (read n h v)) fs"
      proof (rule map_cong [OF refl])
        fix x assume x: "x \<in> set fs"
        obtain k u where e: "x = (k, u)" by (cases x)
        from those_map_Some [OF ts x] e obtain y where "read n h u = Some y" by auto
        with Suc.IH e
        show "(case x of (k, v) \<Rightarrow> map_option (Pair k) (read (Suc n) h v))
                = (case x of (k, v) \<Rightarrow> map_option (Pair k) (read n h v))" by simp
      qed
      then show ?thesis using Suc.prems by (simp add: HRef a HObj del: map_eq_conv)
    qed
  qed (use Suc.prems in simp_all)
qed

lemma read_more: "read n h v = Some t \<Longrightarrow> read (n + m) h v = Some t"
  by (induction m) (simp_all add: read_Suc)

lemma read_document_append:
  "read_document h root = Some D \<Longrightarrow> read_document (h @ ext) root = Some D"
proof -
  assume "read_document h root = Some D"
  then have "read (length h) h (HRef root) = Some (JObj D)"
    by (auto simp: read_document_def split: option.splits json.splits)
  then have "read (length h) (h @ ext) (HRef root) = Some (JObj D)" by (rule read_append)
  then have "read (length h + length ext) (h @ ext) (HRef root) = Some (JObj D)"
    by (rule read_more)
  then show ?thesis by (simp add: read_document_def)
qed

text \<open>
  Claim C5. After \<^verbatim>\<open>validateDeletion\<close>, whatever it returns or throws, every object
  that existed before the call is as it was. The objects the call has created, among
  them the copy the trial deletion is made on, hold no address of an older object:
  nothing of the input can be reached from the copy. A document that could be read
  before the call reads the same after it.
\<close>

theorem validateDeletion_leaves_document:
  "take (length h) (snd (validateDeletion_heap g l h root t k)) = h
   \<and> closed (length h) (snd (validateDeletion_heap g l h root t k))
   \<and> (read_document h root = Some D \<longrightarrow>
        read_document (snd (validateDeletion_heap g l h root t k)) root = Some D)"
proof -
  have frame: "take (length h) (snd (validateDeletion_heap g l h root t k)) = h
     \<and> length h \<le> length (snd (validateDeletion_heap g l h root t k))
     \<and> closed (length h) (snd (validateDeletion_heap g l h root t k))"
  proof (cases "read_document h root")
    case None
    then show ?thesis by (simp add: validateDeletion_heap_def closed_def)
  next
    case (Some tree)
    obtain h1 c where al: "alloc h (JObj tree) = (h1, c)" by (cases "alloc h (JObj tree)")
    from alloc_extends(1) [OF al] obtain new where h1: "h1 = h @ new"
      and fr: "fresh (length h) (length h1) (refs_val c @ refs_heap new)" by blast
    from h1 fr have cl: "closed (length h) h1" by (simp add: closed_def)
    show ?thesis
    proof (cases "section_path (toLowerCase t)")
      case None
      with Some al h1 cl show ?thesis by (simp add: validateDeletion_heap_def)
    next
      case path: (Some path)
      let ?s = "hget_path h1 (Some c) path"
      show ?thesis
      proof (cases "heap_delete h1 ?s k")
        case (Inl e)
        with Some al path h1 cl show ?thesis by (simp add: validateDeletion_heap_def)
      next
        case (Inr r)
        obtain h2 slot where r: "r = (h2, slot)" by (cases r)
        with Inr have hd: "heap_delete h1 ?s k = Inr (h2, slot)" by simp
        have "?s = None \<or> (\<exists>w. ?s = Some w \<and> fresh (length h) (length h1) (refs_val w))"
          using hget_path_fresh [OF cl, of c path] fr by (cases ?s) auto
        then have "take (length h) h2 = take (length h) h1"
          using hd by (rule heap_delete_take)
        with h1 have tk: "take (length h) h2 = h" by simp
        have c2: "closed (length h) h2" using cl hd by (rule heap_delete_closed)
        have ln: "length h \<le> length h2" using heap_delete_length [OF hd] h1 by simp
        have sn: "snd (validateDeletion_heap g l h root t k) = h2"
          using Some al path hd
          by (simp add: validateDeletion_heap_def split: option.splits json.splits)
        show ?thesis unfolding sn using tk c2 ln by simp
      qed
    qed
  qed
  let ?h' = "snd (validateDeletion_heap g l h root t k)"
  from frame have "?h' = h @ drop (length h) ?h'"
    by (metis append_take_drop_id)
  then have "read_document h root = Some D \<Longrightarrow> read_document ?h' root = Some D"
    using read_document_append [of h root D "drop (length h) ?h'"] by simp
  with frame show ?thesis by blast
qed

lemma example_heap_document: "read_document example_heap 3 = Some example_document"
  by code_simp

theorem validateDeletion_leaves_document_witness:
  "read_document example_heap 3 = Some example_document
   \<and> take (length example_heap)
         (snd (validateDeletion_heap serializer_ok parser_ok example_heap 3 ''Tool'' ''search''))
       = example_heap
   \<and> read_document
         (snd (validateDeletion_heap serializer_ok parser_ok example_heap 3 ''Tool'' ''search'')) 3
       = Some example_document"
  using validateDeletion_leaves_document
    [of example_heap serializer_ok parser_ok 3 "''Tool''" "''search''" example_document]
    example_heap_document
  by simp

section \<open>Where validation throws\<close>

lemma those_map_Some_eq [simp]: "those (map Some xs) = Some xs"
  by (induction xs) simp_all

lemma alloc_length:
  "alloc h t = (h', v) \<Longrightarrow> length h \<le> length h'"
  "alloc_items h ts = (h', vs) \<Longrightarrow> length h \<le> length h'"
  "alloc_fields h kvs = (h', fs) \<Longrightarrow> length h \<le> length h'"
  using alloc_extends(1) [of h t h' v] alloc_extends(2) [of h ts h' vs]
    alloc_extends(3) [of h kvs h' fs]
  by auto

lemma alloc_read:
  "alloc h t = (h', v) \<Longrightarrow> length h' - length h \<le> m \<Longrightarrow> read m h' v = Some t"
  "alloc_items h ts = (h', vs) \<Longrightarrow> length h' - length h \<le> m \<Longrightarrow>
     map (read m h') vs = map Some ts"
  "alloc_fields h kvs = (h', fs) \<Longrightarrow> length h' - length h \<le> m \<Longrightarrow>
     map (\<lambda>(k, v). map_option (Pair k) (read m h' v)) fs = map Some kvs"
proof (induction h t and h ts and h kvs arbitrary: h' v m and h' vs m and h' fs m
    rule: alloc_alloc_items_alloc_fields.induct)
  case (5 h xs)
  obtain h1 vs where a: "alloc_items h xs = (h1, vs)" by (cases "alloc_items h xs")
  from "5.prems" a have h': "h' = h1 @ [HArr vs]" and v: "v = HRef (length h1)" by simp_all
  from alloc_length(2) [OF a] have le: "length h \<le> length h1" .
  with "5.prems"(2) h' obtain m' where m: "m = Suc m'" and m': "length h1 - length h \<le> m'"
    by (cases m) auto
  from "5.IH" [OF a m'] have r: "map (read m' h1) vs = map Some xs" .
  have "map (read m' h') vs = map (read m' h1) vs"
  proof (rule map_cong [OF refl])
    fix x assume "x \<in> set vs"
    with r obtain y where "read m' h1 x = Some y"
      by (metis (no_types, lifting) in_set_conv_nth length_map nth_map)
    then show "read m' h' x = read m' h1 x" unfolding h' by (simp add: read_append)
  qed
  with r show ?case by (simp add: m v h' del: map_eq_conv)
next
  case (6 h kvs)
  obtain h1 fs where a: "alloc_fields h kvs = (h1, fs)" by (cases "alloc_fields h kvs")
  from "6.prems" a have h': "h' = h1 @ [HObj fs]" and v: "v = HRef (length h1)" by simp_all
  from alloc_length(3) [OF a] have le: "length h \<le> length h1" .
  with "6.prems"(2) h' obtain m' where m: "m = Suc m'" and m': "length h1 - length h \<le> m'"
    by (cases m) auto
  from "6.IH" [OF a m']
  have r: "map (\<lambda>(k, v). map_option (Pair k) (read m' h1 v)) fs = map Some kvs" .
  have "map (\<lambda>(k, v). map_option (Pair k) (read m' h' v)) fs
          = map (\<lambda>(k, v). map_option (Pair k) (read m' h1 v)) fs"
  proof (rule map_cong [OF refl])
    fix x assume x: "x \<in> set fs"
    obtain k u where e: "x = (k, u)" by (cases x)
    from r x obtain y where "(case x of (k, v) \<Rightarrow> map_option (Pair k) (read m' h1 v)) = Some y"
      by (metis (no_types, lifting) in_set_conv_nth length_map nth_map)
    with e obtain z where "read m' h1 u = Some z" by auto
    then have "read m' h' u = read m' h1 u" unfolding h' by (simp add: read_append)
    with e show "(case x of (k, v) \<Rightarrow> map_option (Pair k) (read m' h' v))
                   = (case x of (k, v) \<Rightarrow> map_option (Pair k) (read m' h1 v))" by simp
  qed
  with r show ?case by (simp add: m v h' del: map_eq_conv)
next
  case (8 h x xs)
  obtain h1 v1 where a: "alloc h x = (h1, v1)" by (cases "alloc h x")
  obtain h2 vs2 where b: "alloc_items h1 xs = (h2, vs2)" by (cases "alloc_items h1 xs")
  from "8.prems" a b have r: "h' = h2" "vs = v1 # vs2" by simp_all
  from alloc_length(1) [OF a] alloc_length(2) [OF b]
  have le: "length h \<le> length h1" "length h1 \<le> length h2" .
  from alloc_extends(2) [OF b] obtain n2 where n2: "h2 = h1 @ n2" by blast
  from "8.prems"(2) r le have "length h1 - length h \<le> m" "length h2 - length h1 \<le> m" by simp_all
  from "8.IH"(1) [OF a this(1)] "8.IH"(2) [OF a [symmetric] b this(2)]
  have "read m h1 v1 = Some x" "map (read m h2) vs2 = map Some xs" .
  moreover from this(1) have "read m h2 v1 = Some x" unfolding n2 by (rule read_append)
  ultimately show ?case by (simp add: r)
next
  case (10 h k x kvs)
  obtain h1 v1 where a: "alloc h x = (h1, v1)" by (cases "alloc h x")
  obtain h2 fs2 where b: "alloc_fields h1 kvs = (h2, fs2)" by (cases "alloc_fields h1 kvs")
  from "10.prems" a b have r: "h' = h2" "fs = (k, v1) # fs2" by simp_all
  from alloc_length(1) [OF a] alloc_length(3) [OF b]
  have le: "length h \<le> length h1" "length h1 \<le> length h2" .
  from alloc_extends(3) [OF b] obtain n2 where n2: "h2 = h1 @ n2" by blast
  from "10.prems"(2) r le have "length h1 - length h \<le> m" "length h2 - length h1 \<le> m" by simp_all
  from "10.IH"(1) [OF a this(1)] "10.IH"(2) [OF a [symmetric] b this(2)]
  have "read m h1 v1 = Some x"
    "map (\<lambda>(k, v). map_option (Pair k) (read m h2 v)) fs2 = map Some kvs" .
  moreover from this(1) have "read m h2 v1 = Some x" unfolding n2 by (rule read_append)
  ultimately show ?case by (simp add: r)
qed auto

lemma those_map_exists:
  "(\<And>x. x \<in> set xs \<Longrightarrow> \<exists>y. f x = Some y) \<Longrightarrow> \<exists>ys. those (map f xs) = Some ys"
proof (induction xs)
  case Nil
  then show ?case by simp
next
  case (Cons x xs)
  then obtain y ys where "f x = Some y" "those (map f xs) = Some ys" by (meson list.set_intros)
  then show ?case by simp
qed

text \<open>
  A value that can be read can still be read when one object has lost properties or
  elements.
\<close>

lemma read_after_update:
  assumes "a < length h" and "shrunk (h ! a) ob'"
  shows "read m h v = Some t \<Longrightarrow>
           \<exists>t'. read m (h[a := ob']) v = Some t'
                \<and> ((\<exists>kvs. t = JObj kvs) \<longleftrightarrow> (\<exists>kvs. t' = JObj kvs))"
proof (induction m arbitrary: v t)
  case 0
  then show ?case by (cases v) simp_all
next
  case (Suc m)
  let ?h = "h[a := ob']"
  show ?case
  proof (cases v)
    case (HRef b)
    with Suc.prems have b: "b < length h" by (simp split: if_splits)
    show ?thesis
    proof (cases "h ! b")
      case (HArr vs)
      from Suc.prems HRef b HArr obtain ts where ts: "those (map (read m h) vs) = Some ts"
        "t = JArr ts" by auto
      have sub: "\<exists>ys. those (map (read m ?h) ws) = Some ys"
        if "set ws \<subseteq> insert HEmpty (set vs)" for ws
      proof (rule those_map_exists)
        fix x assume "x \<in> set ws"
        with that have "x = HEmpty \<or> x \<in> set vs" by blast
        then show "\<exists>y. read m ?h x = Some y"
        proof
          assume "x = HEmpty"
          then show ?thesis by (cases m) simp_all
        next
          assume "x \<in> set vs"
          with ts(1) obtain y where "read m h x = Some y" by (blast dest: those_map_Some)
          from Suc.IH [OF this] show ?thesis by blast
        qed
      qed
      show ?thesis
      proof (cases "b = a")
        case True
        with assms(2) HArr obtain ws where ws: "ob' = HArr ws" "set ws \<subseteq> insert HEmpty (set vs)"
          by (auto simp: shrunk_def split: hobj.splits)
        with sub [of ws] HRef b True ts show ?thesis by auto
      next
        case False
        with sub [of vs] HRef b HArr ts show ?thesis by auto
      qed
    next
      case (HObj fs)
      from Suc.prems HRef b HObj obtain ts
        where ts: "those (map (\<lambda>(k, v). map_option (Pair k) (read m h v)) fs) = Some ts"
          "t = JObj ts" by auto
      have sub: "\<exists>ys. those (map (\<lambda>(k, v). map_option (Pair k) (read m ?h v)) fs') = Some ys"
        if "set fs' \<subseteq> set fs" for fs'
      proof (rule those_map_exists)
        fix x assume "x \<in> set fs'"
        with that have x: "x \<in> set fs" by blast
        obtain k u where e: "x = (k, u)" by (cases x)
        from those_map_Some [OF ts(1) x] e obtain y where "read m h u = Some y" by auto
        from Suc.IH [OF this] e
        show "\<exists>y. (case x of (k, v) \<Rightarrow> map_option (Pair k) (read m ?h v)) = Some y" by auto
      qed
      show ?thesis
      proof (cases "b = a")
        case True
        with assms(2) HObj obtain fs' where fs': "ob' = HObj fs'" "set fs' \<subseteq> set fs"
          by (auto simp: shrunk_def split: hobj.splits)
        with sub [of fs'] HRef b True ts show ?thesis by auto
      next
        case False
        with sub [of fs] HRef b HObj ts show ?thesis by auto
      qed
    qed
  qed (use Suc.prems in auto)
qed

text \<open>
  Reading a property of an object of the heap, and reading it in the tree that the
  object is read as.
\<close>

lemma those_fields_map_of:
  "those (map (\<lambda>(k, v). map_option (Pair k) (f v)) fs) = Some kvs \<Longrightarrow>
     map_of kvs name = (case map_of fs name of None \<Rightarrow> None | Some w \<Rightarrow> f w)"
proof (induction fs arbitrary: kvs)
  case Nil
  then show ?case by simp
next
  case (Cons p fs)
  obtain k v where p: "p = (k, v)" by (cases p)
  from Cons.prems p obtain u rest where u: "f v = Some u"
    and rest: "those (map (\<lambda>(k, v). map_option (Pair k) (f v)) fs) = Some rest"
    and kvs: "kvs = (k, u) # rest"
    by (auto split: option.splits)
  from Cons.IH [OF rest] p u kvs show ?case by simp
qed

lemma those_length: "those (map f xs) = Some ys \<Longrightarrow> length ys = length xs"
  by (induction xs arbitrary: ys) (auto split: option.splits)

lemma get_path_None [simp]: "get_path None names = None"
  by (induction names) simp_all

lemma hget_read:
  assumes "read n h v = Some t"
  shows "case hget h (Some v) name of
           None \<Rightarrow> get_opt (Some t) name = None
         | Some w \<Rightarrow> \<exists>u. read n h w = Some u \<and> get_opt (Some t) name = Some u"
proof (cases v)
  case (HRef a)
  with assms obtain m where n: "n = Suc m" by (cases n) simp_all
  with assms HRef have a: "a < length h" by (simp split: if_splits)
  show ?thesis
  proof (cases "h ! a")
    case (HArr vs)
    with assms HRef n a show ?thesis by (auto simp: hget_def)
  next
    case (HObj fs)
    with assms HRef n a obtain kvs
      where kvs: "those (map (\<lambda>(k, v). map_option (Pair k) (read m h v)) fs) = Some kvs"
        and t: "t = JObj kvs" by auto
    note mo = those_fields_map_of [OF kvs, of name]
    show ?thesis
    proof (cases "map_of fs name")
      case None
      with mo HRef a HObj t show ?thesis by (simp add: hget_def)
    next
      case (Some w)
      then have "(name, w) \<in> set fs" by (rule map_of_SomeD)
      from those_map_Some [OF kvs this] obtain u where u: "read m h w = Some u" by auto
      then have "read n h w = Some u" unfolding n by (rule read_Suc)
      with mo Some u HRef a HObj t show ?thesis by (simp add: hget_def)
    qed
  qed
qed (use assms in \<open>auto simp: hget_def\<close>)

lemma hget_path_read:
  "read n h v = Some t \<Longrightarrow>
     (case hget_path h (Some v) path of
        None \<Rightarrow> get_path (Some t) path = None
      | Some w \<Rightarrow> \<exists>u. read n h w = Some u \<and> get_path (Some t) path = Some u)"
proof (induction path arbitrary: v t)
  case Nil
  then show ?case by simp
next
  case (Cons name names)
  show ?case
  proof (cases "hget h (Some v) name")
    case None
    with hget_read [OF Cons.prems, of name] show ?thesis by simp
  next
    case (Some w)
    with hget_read [OF Cons.prems, of name] obtain u
      where u: "read n h w = Some u" "get_opt (Some t) name = Some u" by auto
    from Cons.IH [OF u(1)] Some u(2) show ?thesis
      by (auto split: option.splits)
  qed
qed

text \<open>\<^verbatim>\<open>delete\<close> throws on the heap exactly when it does on the tree.\<close>

lemma heap_delete_throws:
  assumes "read n h w = Some u"
  shows "heap_delete h (Some w) k = Inl TypeError \<longleftrightarrow> truthy (Some u) \<and> non_configurable u k"
proof (cases w)
  case (HRef a)
  with assms obtain m where n: "n = Suc m" by (cases n) simp_all
  with assms HRef have a: "a < length h" by (simp split: if_splits)
  show ?thesis
  proof (cases "h ! a")
    case (HArr vs)
    with assms HRef n a obtain ts where "u = JArr ts" by auto
    with HRef a HArr show ?thesis
      by (simp add: heap_delete_def split: option.splits)
  next
    case (HObj fs)
    with assms HRef n a obtain kvs where "u = JObj kvs" by auto
    with HRef a HObj show ?thesis by (simp add: heap_delete_def)
  qed
qed (use assms in \<open>auto simp: heap_delete_def\<close>)

lemma heap_delete_None [simp]: "heap_delete h None k = Inr (h, None)"
  by (simp add: heap_delete_def)

lemma validateDeletion_heap_outcome:
  assumes "read_document h root = Some cfg"
  shows "(delete_throws cfg (toLowerCase t) k \<longrightarrow>
            fst (validateDeletion_heap g l h root t k) = Inl TypeError)
         \<and> (\<not> delete_throws cfg (toLowerCase t) k \<longrightarrow>
              fst (validateDeletion_heap g l h root t k) = Inr None
              \<or> (\<exists>trial. fst (validateDeletion_heap g l h root t k)
                           = Inr (validateConfig g l trial)))"
proof -
  obtain h1 c where al: "alloc h (JObj cfg) = (h1, c)" by (cases "alloc h (JObj cfg)")
  have r1: "read (length h1) h1 c = Some (JObj cfg)"
    by (rule alloc_read(1) [OF al]) simp
  show ?thesis
  proof (cases "section_path (toLowerCase t)")
    case None
    with assms al show ?thesis by (simp add: validateDeletion_heap_def delete_throws_def)
  next
    case (Some path)
    let ?s = "hget_path h1 (Some c) path"
    have returns: "\<exists>trial. fst (validateDeletion_heap g l h root t k)
                              = Inr (validateConfig g l trial)"
      if hd: "heap_delete h1 ?s k = Inr (h2, slot)" for h2 slot
    proof -
      have "\<exists>tree. read (length h2) h2 c = Some (JObj tree)"
        using heap_delete_cases [OF hd]
      proof
        assume "h2 = h1"
        with r1 show ?thesis by simp
      next
        assume "\<exists>a ob'. ?s = Some (HRef a) \<and> a < length h1 \<and> shrunk (h1 ! a) ob'
                  \<and> h2 = h1[a := ob']"
        then obtain a ob' where a: "a < length h1" "shrunk (h1 ! a) ob'" "h2 = h1[a := ob']"
          by blast
        from read_after_update [OF a(1,2) r1] a(3) show ?thesis by auto
      qed
      then obtain tree where "read (length h2) h2 c = Some (JObj tree)" by blast
      with assms al Some hd show ?thesis by (auto simp: validateDeletion_heap_def)
    qed
    show ?thesis
    proof (cases ?s)
      case None
      with hget_path_read [OF r1, of path] Some
      have "\<not> delete_throws cfg (toLowerCase t) k" by (simp add: delete_throws_def)
      moreover from None have "heap_delete h1 ?s k = Inr (h1, None)" by simp
      ultimately show ?thesis using returns by blast
    next
      case w: (Some w)
      with hget_path_read [OF r1, of path] obtain u
        where u: "read (length h1) h1 w = Some u" "get_path (Some (JObj cfg)) path = Some u"
        by auto
      from u(2) Some
      have dt: "delete_throws cfg (toLowerCase t) k \<longleftrightarrow> truthy (Some u) \<and> non_configurable u k"
        by (simp add: delete_throws_def)
      show ?thesis
      proof (cases "heap_delete h1 ?s k")
        case (Inl e)
        then have "heap_delete h1 (Some w) k = Inl TypeError" using w by (cases e) simp
        with heap_delete_throws [OF u(1), of k] dt
        have "delete_throws cfg (toLowerCase t) k" by simp
        moreover from assms al Some Inl
        have "fst (validateDeletion_heap g l h root t k) = Inl TypeError"
          by (cases e) (simp add: validateDeletion_heap_def)
        ultimately show ?thesis by simp
      next
        case (Inr r)
        obtain h2 slot where "r = (h2, slot)" by (cases r)
        with Inr have hd: "heap_delete h1 ?s k = Inr (h2, slot)" by simp
        with w heap_delete_throws [OF u(1), of k] dt
        have "\<not> delete_throws cfg (toLowerCase t) k" by simp
        with returns [OF hd] show ?thesis by blast
      qed
    qed
  qed
qed

text \<open>The same on the value: \<^verbatim>\<open>validateDeletion\<close> throws exactly when \<^verbatim>\<open>delete\<close> does.\<close>

lemma delete_key_throws: "delete_key v k = Inl TypeError \<longleftrightarrow> non_configurable v k"
  by (cases v) (auto split: option.splits)

lemma only_TypeError: "e = TypeError"
  by (cases e)

lemma delete_in_throws:
  "delete_in obj s k = Inl TypeError \<longleftrightarrow>
     (case map_of obj s of None \<Rightarrow> False | Some v \<Rightarrow> truthy (Some v) \<and> non_configurable v k)"
proof (cases "map_of obj s")
  case None
  then show ?thesis by (simp add: delete_in_def)
next
  case (Some v)
  show ?thesis
  proof (cases "delete_key v k")
    case (Inl e)
    then have "delete_key v k = Inl TypeError" using only_TypeError [of e] by simp
    then have "non_configurable v k" by (simp add: delete_key_throws)
    with Some Inl only_TypeError [of e] show ?thesis by (simp add: delete_in_def)
  next
    case (Inr r)
    then have "\<not> non_configurable v k" using delete_key_throws [of v k] by simp
    with Some Inr show ?thesis by (simp add: delete_in_def split: prod.splits)
  qed
qed

lemma delete_section_throws:
  "delete_section cfg s k = Inl TypeError \<longleftrightarrow>
     (case get_path (Some (JObj cfg)) [s] of
        None \<Rightarrow> False
      | Some v \<Rightarrow> truthy (Some v) \<and> non_configurable v k)"
  using delete_in_throws [of cfg s k]
  by (auto simp: delete_section_def at_path_def split: sum.splits)

lemma delete_resource_throws:
  "delete_resource cfg kind k = Inl TypeError \<longleftrightarrow>
     (case get_path (Some (JObj cfg)) [''resources'', kind] of
        None \<Rightarrow> False
      | Some v \<Rightarrow> truthy (Some v) \<and> non_configurable v k)"
proof (cases "\<exists>kvs. map_of cfg ''resources'' = Some (JObj kvs)")
  case True
  then obtain kvs where "map_of cfg ''resources'' = Some (JObj kvs)" by blast
  with delete_in_throws [of kvs kind k] show ?thesis
    by (auto simp: delete_resource_def at_path_def split: sum.splits)
next
  case False
  have "get_opt r kind = None" if "\<nexists>kvs. r = Some (JObj kvs)" for r
  proof (cases r)
    case None
    then show ?thesis by simp
  next
    case (Some v)
    with that show ?thesis by (cases v) auto
  qed
  from this [OF False] have "get_opt (map_of cfg ''resources'') kind = None" .
  moreover from False have "delete_resource cfg kind k = Inr \<lparr>document = cfg, empty_slot = None\<rparr>"
    by (auto simp: delete_resource_def at_path_def split: option.splits json.splits)
  ultimately show ?thesis by simp
qed

lemma applyDeletion_throws:
  "section_path s = None \<Longrightarrow> applyDeletion cfg s k = None"
  "section_path s = Some path \<Longrightarrow>
     \<exists>r. applyDeletion cfg s k = Some r
       \<and> (r = Inl TypeError \<longleftrightarrow>
            (case get_path (Some (JObj cfg)) path of
               None \<Rightarrow> False
             | Some v \<Rightarrow> truthy (Some v) \<and> non_configurable v k))"
  unfolding section_path_def applyDeletion_def
  by (auto simp: delete_section_throws delete_resource_throws split: if_splits)

lemma validateDeletion_throws:
  "validateDeletion g l cfg t k = Inl TypeError \<longleftrightarrow> delete_throws cfg (toLowerCase t) k"
proof (cases "section_path (toLowerCase t)")
  case None
  with applyDeletion_throws(1) [OF None, of cfg k] show ?thesis
    by (simp add: validateDeletion_def delete_throws_def)
next
  case (Some path)
  from applyDeletion_throws(2) [OF Some, of cfg k] obtain r
    where r: "applyDeletion cfg (toLowerCase t) k = Some r"
      and t: "r = Inl TypeError \<longleftrightarrow>
            (case get_path (Some (JObj cfg)) path of
               None \<Rightarrow> False
             | Some v \<Rightarrow> truthy (Some v) \<and> non_configurable v k)" by blast
  show ?thesis
  proof (cases r)
    case (Inl e)
    with r t Some only_TypeError [of e] show ?thesis
      by (simp add: validateDeletion_def delete_throws_def)
  next
    case (Inr x)
    with r t Some show ?thesis
      by (simp add: validateDeletion_def delete_throws_def)
  qed
qed

text \<open>The properties that cannot be deleted, spelled out.\<close>

lemma own_index_Some: "own_index n k = Some i \<longleftrightarrow> i < n \<and> digits i = k"
proof
  assume "own_index n k = Some i"
  then have "i \<in> set [0..<n] \<and> digits i = k"
    unfolding own_index_def find_Some_iff by auto
  then show "i < n \<and> digits i = k" by simp
next
  assume i: "i < n \<and> digits i = k"
  then have "find (\<lambda>i. digits i = k) [0..<n] \<noteq> None"
    unfolding find_None_iff by auto
  then obtain j where j: "own_index n k = Some j" by (auto simp: own_index_def)
  then have "digits j = k" unfolding own_index_def find_Some_iff by auto
  with i have "j = i" by (auto dest: digits_inj)
  with j show "own_index n k = Some i" by simp
qed

lemma own_index_None: "own_index n k = None \<longleftrightarrow> (\<forall>i<n. digits i \<noteq> k)"
  unfolding own_index_def find_None_iff by auto

lemma non_configurable_iff:
  "non_configurable v k \<longleftrightarrow>
     (\<exists>xs. v = JArr xs \<and> k = ''length'')
     \<or> (\<exists>s. v = JStr s \<and> (k = ''length'' \<or> (\<exists>i<length s. digits i = k)))"
proof (cases v)
  case (JStr s)
  show ?thesis
  proof (cases "own_index (length s) k")
    case None
    with JStr own_index_None [of "length s" k] show ?thesis by auto
  next
    case (Some i)
    with JStr own_index_Some [of "length s" k i] show ?thesis by auto
  qed
qed auto

text \<open>In a document whose sections are mappings, as the interface types them,
  \<^verbatim>\<open>delete\<close> does not throw.\<close>

lemma mapping_section_deletes:
  assumes "section_path t = Some path"
    and "get_path (Some (JObj cfg)) path = None
         \<or> (\<exists>kvs. get_path (Some (JObj cfg)) path = Some (JObj kvs))"
  shows "\<not> delete_throws cfg t k"
  using assms by (auto simp: delete_throws_def)

lemma validateConfig_catches:
  "g trial = Inl e \<Longrightarrow> validateConfig g l trial = Some (diagnostic e)"
  "g trial = Inr y \<Longrightarrow> l y = Inl e \<Longrightarrow> validateConfig g l trial = Some (diagnostic e)"
  "g trial = Inr y \<Longrightarrow> l y = Inr doc \<Longrightarrow> validateConfig g l trial = None"
  by (simp_all add: validateConfig_def)

text \<open>
  Claim C4, as the program has it. For a document that \<^verbatim>\<open>JSON.stringify\<close> can
  serialise (it has no cycle: \<open>read_document\<close> succeeds), \<^verbatim>\<open>validateDeletion\<close> throws
  exactly when its \<^verbatim>\<open>delete\<close> statement does: when the section of the component type
  is, in the document, a sequence and the key is \<^verbatim>\<open>length\<close>, or a string that is not
  empty and the key is \<^verbatim>\<open>length\<close> or one of its indices. Otherwise it returns null, or
  what \<^verbatim>\<open>validateConfig\<close> returns for the trial document. \<^verbatim>\<open>validateConfig\<close> returns
  null or a diagnostic that is not empty, and whatever the serialiser or the parser
  throws is caught and becomes the diagnostic of that error.
\<close>

theorem validateDeletion_throws_only_in_delete:
  "(read_document h root = Some cfg \<longrightarrow>
      (delete_throws cfg (toLowerCase t) k \<longrightarrow>
         fst (validateDeletion_heap g l h root t k) = Inl TypeError)
      \<and> (\<not> delete_throws cfg (toLowerCase t) k \<longrightarrow>
           fst (validateDeletion_heap g l h root t k) = Inr None
           \<or> (\<exists>trial. fst (validateDeletion_heap g l h root t k)
                        = Inr (validateConfig g l trial))))
   \<and> (g trial = Inl e \<longrightarrow> validateConfig g l trial = Some (diagnostic e))
   \<and> (g trial = Inr y \<and> l y = Inl e \<longrightarrow> validateConfig g l trial = Some (diagnostic e))
   \<and> (validateConfig g l trial = None
       \<or> (\<exists>d. validateConfig g l trial = Some d \<and> d \<noteq> []))"
proof (intro conjI impI)
  assume r: "read_document h root = Some cfg"
  { assume "delete_throws cfg (toLowerCase t) k"
    with validateDeletion_heap_outcome [OF r, of t k g l]
    show "fst (validateDeletion_heap g l h root t k) = Inl TypeError" by blast }
  { assume "\<not> delete_throws cfg (toLowerCase t) k"
    with validateDeletion_heap_outcome [OF r, of t k g l]
    show "fst (validateDeletion_heap g l h root t k) = Inr None
           \<or> (\<exists>trial. fst (validateDeletion_heap g l h root t k)
                        = Inr (validateConfig g l trial))" by blast }
next
  assume "g trial = Inl e"
  then show "validateConfig g l trial = Some (diagnostic e)"
    by (rule validateConfig_catches)
next
  assume "g trial = Inr y \<and> l y = Inl e"
  then show "validateConfig g l trial = Some (diagnostic e)"
    by (simp add: validateConfig_catches)
next
  show "validateConfig g l trial = None
       \<or> (\<exists>d. validateConfig g l trial = Some d \<and> d \<noteq> [])"
    by (cases "validateConfig g l trial") (auto dest: validateConfig_nonempty)
qed

lemma example_heap_blocked:
  "fst (validateDeletion_heap serializer_ok (parser_undefined_alias ''search'') example_heap 3
          ''Tool'' ''search'')
     = Inr (Some (''This component is referenced by '' @ [CHR 0x22] @ ''search'' @ [CHR 0x22]
                  @ ''. Remove that reference first.''))"
  by code_simp

lemma example_heap_deletes:
  "\<not> delete_throws example_document (toLowerCase ''Tool'') ''search''"
  by code_simp

lemma sequence_heap_document:
  "read_document sequence_heap 1 = Some sequence_document"
  by code_simp

lemma sequence_heap_throws:
  "delete_throws sequence_document (toLowerCase ''Tool'') ''length''"
  "delete_throws sequence_document (toLowerCase ''Prompt'') ''1''"
  by code_simp+

theorem validateDeletion_throws_only_in_delete_witness:
  "read_document example_heap 3 = Some example_document
   \<and> \<not> delete_throws example_document (toLowerCase ''Tool'') ''search''
   \<and> fst (validateDeletion_heap serializer_ok (parser_undefined_alias ''search'') example_heap 3
            ''Tool'' ''search'')
       = Inr (Some (''This component is referenced by '' @ [CHR 0x22] @ ''search'' @ [CHR 0x22]
                    @ ''. Remove that reference first.''))
   \<and> validateConfig serializer_ok (parser_undefined_alias ''search'')
         \<lparr>document = example_document, empty_slot = None\<rparr>
       = Some (diagnostic (ErrorObj (''undefined alias '' @ [CHR 0x22] @ ''search'' @ [CHR 0x22])))
   \<and> validateConfig (\<lambda>c. Inl NonError) parser_ok \<lparr>document = example_document, empty_slot = None\<rparr>
       = Some (diagnostic NonError)
   \<and> read_document sequence_heap 1 = Some sequence_document
   \<and> delete_throws sequence_document (toLowerCase ''Tool'') ''length''
   \<and> fst (validateDeletion_heap serializer_ok parser_ok sequence_heap 1 ''Tool'' ''length'')
       = Inl TypeError"
proof -
  note th = validateDeletion_throws_only_in_delete
  let ?trial = "\<lparr>document = example_document, empty_slot = None\<rparr>"
  have p: "serializer_ok ?trial = Inr ''tools: {}''
           \<and> parser_undefined_alias ''search'' ''tools: {}''
               = Inl (ErrorObj (''undefined alias '' @ [CHR 0x22] @ ''search'' @ [CHR 0x22]))"
    by (simp add: serializer_ok_def parser_undefined_alias_def)
  from th [where h = example_heap and root = 3 and cfg = example_document
      and g = serializer_ok and l = "parser_undefined_alias ''search''" and t = "''Tool''"
      and k = "''search''" and trial = ?trial
      and e = "ErrorObj (''undefined alias '' @ [CHR 0x22] @ ''search'' @ [CHR 0x22])"
      and y = "''tools: {}''"] p
  have a: "validateConfig serializer_ok (parser_undefined_alias ''search'') ?trial
       = Some (diagnostic (ErrorObj (''undefined alias '' @ [CHR 0x22] @ ''search'' @ [CHR 0x22])))"
    by blast
  from th [where h = example_heap and root = 3 and cfg = example_document
      and g = "\<lambda>c. Inl NonError" and l = parser_ok and t = "''Tool''"
      and k = "''search''" and trial = ?trial and e = NonError]
  have b: "validateConfig (\<lambda>c. Inl NonError) parser_ok ?trial = Some (diagnostic NonError)"
    by blast
  from th [where h = sequence_heap and root = 1 and cfg = sequence_document
      and g = serializer_ok and l = parser_ok and t = "''Tool''" and k = "''length''"]
    sequence_heap_document sequence_heap_throws(1)
  have c: "fst (validateDeletion_heap serializer_ok parser_ok sequence_heap 1 ''Tool'' ''length'')
       = Inl TypeError"
    by blast
  from a b c example_heap_document example_heap_blocked example_heap_deletes
    sequence_heap_document sequence_heap_throws(1)
  show ?thesis by blast
qed

text \<open>
  Claim C4, as stated, fails. The document \<^verbatim>\<open>{tools: [], prompts: "ab"}\<close> is a JSON
  tree. Deleting the tool \<^verbatim>\<open>length\<close>, or the prompt \<^verbatim>\<open>1\<close>, makes \<^verbatim>\<open>validateDeletion\<close>
  throw a TypeError; deleting the tool \<^verbatim>\<open>0\<close> does not.
\<close>

theorem validateDeletion_throws_on_sequence:
  "read_document sequence_heap 1 = Some sequence_document
   \<and> sequence_document = [(''tools'', JArr []), (''prompts'', JStr ''ab'')]
   \<and> fst (validateDeletion_heap serializer_ok parser_ok sequence_heap 1 ''Tool'' ''length'')
       = Inl TypeError
   \<and> fst (validateDeletion_heap serializer_ok parser_ok sequence_heap 1 ''Prompt'' ''1'')
       = Inl TypeError
   \<and> fst (validateDeletion_heap serializer_ok parser_ok sequence_heap 1 ''Tool'' ''0'')
       = Inr None
   \<and> validateDeletion serializer_ok parser_ok sequence_document ''Tool'' ''length''
       = Inl TypeError
   \<and> validateDeletion serializer_ok parser_ok sequence_document ''Prompt'' ''1''
       = Inl TypeError"
  by code_simp

section \<open>What the finders report\<close>























lemma andThen_Inr_eq [simp]: "andThen (Inr x) f = f x"
  by (simp add: andThen_def)





































end
